theory Spec2Isabelle
  imports Complex_Main "HOL-Library.Multiset"
begin

section \<open>Geometry and objects\<close>

text \<open>
  The octree of \<^verbatim>\<open>nuke.ts\<close> (second part of the file: classes \<^verbatim>\<open>Octree\<close> and
  \<^verbatim>\<open>OctreeNode\<close>).  JavaScript numbers are modelled as exact rationals, so rounding,
  infinities and NaN are outside the model, except for the one division by a loop
  counter in \<^verbatim>\<open>grow\<close>, whose zero case is written out.
\<close>

datatype vec3 = Vec3 (vx: rat) (vy: rat) (vz: rat)

datatype box3 = Box3 (bmin: vec3) (bmax: vec3)

text \<open>
  An \<^verbatim>\<open>OctreeObject\<close> is a reference; the model uses a natural number for its identity.
  Its \<^verbatim>\<open>boundingBox\<close> belongs to the caller, who may change it between two calls, so
  every operation takes the current boxes as a function \<open>bb\<close>.
\<close>

type_synonym obj = nat

type_synonym addr = nat

definition DEFAULT_ROOT_NODE_SIZE :: rat where
  "DEFAULT_ROOT_NODE_SIZE = 1"

definition MIN_DEPTH :: int where
  "MIN_DEPTH = - 32"

definition MAX_DEPTH :: int where
  "MAX_DEPTH = 8"

section \<open>Nodes and the store\<close>

text \<open>
  Fields of \<^verbatim>\<open>OctreeNode\<close>.  \<open>objects\<close> is a JavaScript \<^verbatim>\<open>Set\<close>: a duplicate-free
  list in insertion order.  \<open>octants\<close> is \<^verbatim>\<open>null\<close> or an array that
  \<^verbatim>\<open>createOctants\<close> fills with eight nodes.
\<close>

record node =
  parent :: "addr option"
  min_n :: vec3
  size_n :: rat
  octants :: "addr list option"
  objects :: "obj list"
  count_n :: int
  depth :: int

text \<open>
  The \<^verbatim>\<open>Octree\<close>: nodes live in a store \<open>heap\<close>, \<^verbatim>\<open>new OctreeNode\<close> takes the
  address \<open>nextAddr\<close>.  \<open>objectToNode\<close> is the \<^verbatim>\<open>WeakMap\<close>.
\<close>

record octree =
  root :: addr
  heap :: "addr \<Rightarrow> node"
  nextAddr :: addr
  objectToNode :: "obj \<Rightarrow> addr option"

datatype 'a result = Ok 'a | TypeError | OutOfFuel

definition bnd :: "'a result \<Rightarrow> ('a \<Rightarrow> 'b result) \<Rightarrow> 'b result" where
  "bnd m f = (case m of Ok v \<Rightarrow> f v | TypeError \<Rightarrow> TypeError | OutOfFuel \<Rightarrow> OutOfFuel)"

primrec foldR :: "('a \<Rightarrow> 's \<Rightarrow> 's result) \<Rightarrow> 'a list \<Rightarrow> 's \<Rightarrow> 's result" where
  "foldR f [] s = Ok s"
| "foldR f (v # vs) s = bnd (f v s) (foldR f vs)"

definition octantIndices :: "nat list" where
  "octantIndices = [0, 1, 2, 3, 4, 5, 6, 7]"

definition set_add :: "obj \<Rightarrow> obj list \<Rightarrow> obj list" where
  "set_add v vs = (if v \<in> set vs then vs else vs @ [v])"

definition set_delete :: "obj \<Rightarrow> obj list \<Rightarrow> obj list" where
  "set_delete v vs = removeAll v vs"

definition upd :: "addr \<Rightarrow> (node \<Rightarrow> node) \<Rightarrow> octree \<Rightarrow> octree" where
  "upd a f s = s\<lparr>heap := (heap s)(a := f (heap s a))\<rparr>"

definition alloc :: "node \<Rightarrow> octree \<Rightarrow> addr \<times> octree" where
  "alloc n s = (nextAddr s, s\<lparr>heap := (heap s)(nextAddr s := n), nextAddr := Suc (nextAddr s)\<rparr>)"

definition blankNode :: node where
  "blankNode = \<lparr>parent = None, min_n = Vec3 0 0 0, size_n = 0, octants = None,
     objects = [], count_n = 0, depth = 0\<rparr>"

text \<open>The constructor of \<^verbatim>\<open>Octree\<close>: a 1x1x1 root at the origin, depth 0.\<close>

definition Octree_new :: octree where
  "Octree_new = \<lparr>root = 0,
     heap = (\<lambda>_. blankNode)(0 := blankNode\<lparr>size_n := DEFAULT_ROOT_NODE_SIZE\<rparr>),
     nextAddr = 1, objectToNode = Map.empty\<rparr>"

section \<open>Geometric predicates of a node\<close>

definition largerThan :: "(obj \<Rightarrow> box3) \<Rightarrow> node \<Rightarrow> obj \<Rightarrow> bool" where
  "largerThan bb n v = (let box = bb v in
     size_n n > vx (bmax box) - vx (bmin box) \<and>
     size_n n > vy (bmax box) - vy (bmin box) \<and>
     size_n n > vz (bmax box) - vz (bmin box))"

definition containsPoint :: "node \<Rightarrow> vec3 \<Rightarrow> bool" where
  "containsPoint n p =
     (vx (min_n n) \<le> vx p \<and> vx p < vx (min_n n) + size_n n \<and>
      vy (min_n n) \<le> vy p \<and> vy p < vy (min_n n) + size_n n \<and>
      vz (min_n n) \<le> vz p \<and> vz p < vz (min_n n) + size_n n)"

definition center :: "box3 \<Rightarrow> vec3" where
  "center box = Vec3 (vx (bmin box) + (vx (bmax box) - vx (bmin box)) / 2)
                     (vy (bmin box) + (vy (bmax box) - vy (bmin box)) / 2)
                     (vz (bmin box) + (vz (bmax box) - vz (bmin box)) / 2)"

definition containsCenter :: "(obj \<Rightarrow> box3) \<Rightarrow> node \<Rightarrow> obj \<Rightarrow> bool" where
  "containsCenter bb n v = containsPoint n (center (bb v))"

section \<open>OctreeNode: createOctants, insert, split, merge, remove\<close>

text \<open>
  \<^verbatim>\<open>createOctants\<close>: octant \<open>i\<close> has half the size; bit 0 of \<open>i\<close> shifts x, bit 1
  shifts y, bit 2 shifts z.
\<close>

definition octantMin :: "vec3 \<Rightarrow> rat \<Rightarrow> nat \<Rightarrow> vec3" where
  "octantMin m h i = Vec3 (vx m + h * of_nat (i mod 2))
                          (vy m + h * of_nat (i div 2 mod 2))
                          (vz m + h * of_nat (i div 4 mod 2))"

definition octantNode :: "addr \<Rightarrow> node \<Rightarrow> nat \<Rightarrow> node" where
  "octantNode a n i = \<lparr>parent = Some a, min_n = octantMin (min_n n) (size_n n / 2) i,
     size_n = size_n n / 2, octants = None, objects = [], count_n = 0, depth = depth n + 1\<rparr>"

definition createOctants :: "addr \<Rightarrow> octree \<Rightarrow> octree" where
  "createOctants a s =
     (let (os, s') = fold (\<lambda>i (os, s'). let (b, s'') = alloc (octantNode a (heap s' a) i) s'
                                        in (os @ [b], s''))
                          octantIndices ([], s)
      in upd a (\<lambda>n. n\<lparr>octants := Some os\<rparr>) s')"

definition addObject :: "obj \<Rightarrow> addr \<Rightarrow> octree \<Rightarrow> octree" where
  "addObject v a s =
     (upd a (\<lambda>n. n\<lparr>objects := set_add v (objects n)\<rparr>) s)\<lparr>objectToNode := (objectToNode s)(v \<mapsto> a)\<rparr>"

text \<open>
  \<^verbatim>\<open>OctreeNode.insert\<close> and \<^verbatim>\<open>OctreeNode.split\<close> call each other; nothing in the code
  bounds the descent through existing octants, so both take fuel and running out of it
  is the result \<open>OutOfFuel\<close>.
\<close>

fun nodeInsert :: "nat \<Rightarrow> (obj \<Rightarrow> box3) \<Rightarrow> obj \<Rightarrow> addr \<Rightarrow> octree \<Rightarrow> octree result"
  and split :: "nat \<Rightarrow> (obj \<Rightarrow> box3) \<Rightarrow> addr \<Rightarrow> octree \<Rightarrow> octree result"
where
  "nodeInsert 0 bb v a s = OutOfFuel"
| "nodeInsert (Suc k) bb v a s =
     (let s1 = upd a (\<lambda>n. n\<lparr>count_n := count_n n + 1\<rparr>) s in
      case octants (heap s1 a) of
        Some os \<Rightarrow>
          (if largerThan bb (heap s1 (os ! 0)) v then
             (case find (\<lambda>i. containsCenter bb (heap s1 (os ! i)) v) octantIndices of
                Some i \<Rightarrow> nodeInsert k bb v (os ! i) s1
              | None \<Rightarrow> Ok (addObject v a s1))
           else Ok (addObject v a s1))
      | None \<Rightarrow> split k bb a (addObject v a s1))"
| "split 0 bb a s = OutOfFuel"
| "split (Suc k) bb a s =
     (if length (objects (heap s a)) \<le> 8 \<or> depth (heap s a) = MAX_DEPTH then Ok s
      else
        let s1 = createOctants a s in
        bnd (foldR (\<lambda>v s2.
                 if largerThan bb (heap s2 (the (octants (heap s2 a)) ! 0)) v then
                   foldR (\<lambda>j s3.
                       if containsCenter bb (heap s3 (the (octants (heap s3 a)) ! j)) v then
                         bnd (nodeInsert k bb v (the (octants (heap s3 a)) ! j) s3)
                           (\<lambda>s4. Ok (upd a (\<lambda>n. n\<lparr>objects := set_delete v (objects n)\<rparr>) s4))
                       else Ok s3)
                     octantIndices s2
                 else Ok s2)
               (objects (heap s1 a)) s1)
          (\<lambda>s5. foldR (\<lambda>i s6. split k bb (the (octants (heap s6 a)) ! i) s6) octantIndices s5))"

definition merge :: "addr \<Rightarrow> octree \<Rightarrow> octree" where
  "merge a s =
     (case octants (heap s a) of
        None \<Rightarrow> s
      | Some os \<Rightarrow>
          if count_n (heap s a) > 8 then s
          else
            let s1 = fold (\<lambda>i s2. fold (\<lambda>v s3. addObject v a s3) (objects (heap s2 (os ! i))) s2)
                       octantIndices s
            in upd a (\<lambda>n. n\<lparr>octants := None\<rparr>) s1)"

fun cleanAncestors :: "nat \<Rightarrow> addr option \<Rightarrow> octree \<Rightarrow> octree result" where
  "cleanAncestors 0 p s = OutOfFuel"
| "cleanAncestors (Suc k) None s = Ok s"
| "cleanAncestors (Suc k) (Some a) s =
     (let s1 = merge a (upd a (\<lambda>n. n\<lparr>count_n := count_n n - 1\<rparr>) s)
      in cleanAncestors k (parent (heap s1 a)) s1)"

definition nodeRemove :: "nat \<Rightarrow> obj \<Rightarrow> addr \<Rightarrow> octree \<Rightarrow> octree result" where
  "nodeRemove k v a s =
     (let s1 = upd a (\<lambda>n. n\<lparr>objects := set_delete v (objects n), count_n := count_n n - 1\<rparr>) s;
          s2 = merge a s1
      in cleanAncestors k (parent (heap s2 a)) s2)"

section \<open>Octree: grow, shrink, insert, remove, update\<close>

definition corner :: "box3 \<Rightarrow> nat \<Rightarrow> vec3" where
  "corner box i = Vec3 (if i mod 2 = 1 then vx (bmin box) else vx (bmax box))
                       (if i div 2 mod 2 = 1 then vy (bmin box) else vy (bmax box))
                       (if i div 4 mod 2 = 1 then vz (bmin box) else vz (bmax box))"

definition outsideCorners :: "node \<Rightarrow> box3 \<Rightarrow> vec3 list" where
  "outsideCorners r box = filter (\<lambda>p. \<not> containsPoint r p) (map (corner box) octantIndices)"

text \<open>
  The direction of growth: the average of the corners outside the root, minus the root's
  centre.  With no corner outside, JavaScript divides by zero and every component is
  NaN, which compares false with everything: the result \<open>None\<close>.
\<close>

definition growDirection :: "node \<Rightarrow> box3 \<Rightarrow> vec3 option" where
  "growDirection r box =
     (let ps = outsideCorners r box; c = of_nat (length ps) in
      if ps = [] then None
      else Some (Vec3 (sum_list (map vx ps) * (1 / c) - (vx (min_n r) + size_n r / 2))
                      (sum_list (map vy ps) * (1 / c) - (vy (min_n r) + size_n r / 2))
                      (sum_list (map vz ps) * (1 / c) - (vz (min_n r) + size_n r / 2))))"

definition negative :: "vec3 option \<Rightarrow> (vec3 \<Rightarrow> rat) \<Rightarrow> bool" where
  "negative d c = (case d of None \<Rightarrow> False | Some w \<Rightarrow> c w < 0)"

definition growMin :: "node \<Rightarrow> vec3 option \<Rightarrow> vec3" where
  "growMin r d = Vec3 (if negative d vx then vx (min_n r) - size_n r else vx (min_n r))
                      (if negative d vy then vy (min_n r) - size_n r else vy (min_n r))
                      (if negative d vz then vz (min_n r) - size_n r else vz (min_n r))"

definition octantIndex :: "vec3 option \<Rightarrow> nat" where
  "octantIndex d = (if negative d vx then 1 else 0) + (if negative d vy then 2 else 0)
                   + (if negative d vz then 4 else 0)"

definition newRootNode :: "node \<Rightarrow> vec3 option \<Rightarrow> node" where
  "newRootNode r d = \<lparr>parent = None, min_n = growMin r d, size_n = size_n r * 2,
     octants = None, objects = [], count_n = 0, depth = depth r - 1\<rparr>"

text \<open>
  \<^verbatim>\<open>grow\<close> up to and including \<^verbatim>\<open>newRoot.createOctants()\<close> (for a non-empty old root):
  the new root's address and the store in which its eight fresh octants exist.
\<close>

definition growAlloc :: "(obj \<Rightarrow> box3) \<Rightarrow> obj \<Rightarrow> octree \<Rightarrow> addr \<times> octree" where
  "growAlloc bb v s = alloc (newRootNode (heap s (root s)) (growDirection (heap s (root s)) (bb v))) s"

definition grow :: "(obj \<Rightarrow> box3) \<Rightarrow> obj \<Rightarrow> octree \<Rightarrow> octree" where
  "grow bb v s =
     (let d = growDirection (heap s (root s)) (bb v);
          (newRoot, s1) = growAlloc bb v s
      in if count_n (heap s1 (root s1)) > 0 then
           let s2 = createOctants newRoot s1;
               s3 = upd newRoot (\<lambda>n. n\<lparr>octants := Some ((the (octants n))[octantIndex d := root s2])\<rparr>) s2;
               s4 = upd (root s3) (\<lambda>n. n\<lparr>parent := Some newRoot\<rparr>) s3;
               s5 = upd newRoot (\<lambda>n. n\<lparr>count_n := count_n (heap s4 (root s4))\<rparr>) s4;
               s6 = merge newRoot s5
           in s6\<lparr>root := newRoot\<rparr>
         else s1\<lparr>root := newRoot\<rparr>)"

text \<open>
  The loop of \<^verbatim>\<open>shrink\<close> over the eight octants: \<open>None\<close> is the early return at a
  second non-empty octant, \<open>Some acc\<close> the value of \<^verbatim>\<open>nonEmptyOctant\<close> after the loop
  (\<open>Some None\<close> when it is still undefined).
\<close>

fun onlyNonEmpty :: "(addr \<Rightarrow> node) \<Rightarrow> addr list \<Rightarrow> addr option \<Rightarrow> addr option option" where
  "onlyNonEmpty h [] acc = Some acc"
| "onlyNonEmpty h (c # cs) acc =
     (if count_n (h c) > 0 then
        (case acc of Some _ \<Rightarrow> None | None \<Rightarrow> onlyNonEmpty h cs (Some c))
      else onlyNonEmpty h cs acc)"

text \<open>
  \<^verbatim>\<open>shrink\<close> calls itself after promoting an octant.  When the loop finds no non-empty
  octant, the code assigns \<^verbatim>\<open>undefined\<close> to the root and then to a field of it, which
  throws: the result \<open>TypeError\<close>.
\<close>

fun shrink :: "nat \<Rightarrow> octree \<Rightarrow> octree result" where
  "shrink 0 s = OutOfFuel"
| "shrink (Suc k) s =
     (let r = heap s (root s) in
      if size_n r < DEFAULT_ROOT_NODE_SIZE \<or> length (objects r) > 0 then Ok s
      else if count_n r = 0 then
        Ok (upd (root s) (\<lambda>n. n\<lparr>min_n := Vec3 0 0 0, size_n := DEFAULT_ROOT_NODE_SIZE, depth := 0\<rparr>) s)
      else
        case octants r of
          None \<Rightarrow> Ok s
        | Some os \<Rightarrow>
            (case onlyNonEmpty (heap s) (map (\<lambda>i. os ! i) octantIndices) None of
               None \<Rightarrow> Ok s
             | Some None \<Rightarrow> TypeError
             | Some (Some c) \<Rightarrow> shrink k (upd c (\<lambda>n. n\<lparr>parent := None\<rparr>) (s\<lparr>root := c\<rparr>))))"

text \<open>
  The \<^verbatim>\<open>while\<close> loop of \<^verbatim>\<open>Octree.insert\<close>.  The flag of the result says whether the
  loop ended in \<^verbatim>\<open>console.warn\<close> and \<^verbatim>\<open>return\<close>.
\<close>

fun growLoop :: "nat \<Rightarrow> (obj \<Rightarrow> box3) \<Rightarrow> obj \<Rightarrow> octree \<Rightarrow> (bool \<times> octree) result" where
  "growLoop 0 bb v s = OutOfFuel"
| "growLoop (Suc k) bb v s =
     (if \<not> largerThan bb (heap s (root s)) v \<or> \<not> containsCenter bb (heap s (root s)) v then
        (if depth (heap s (root s)) = MIN_DEPTH then Ok (True, s)
         else growLoop k bb v (grow bb v s))
      else Ok (False, s))"

text \<open>
  \<^verbatim>\<open>Octree.insert\<close>.  The result holds the tree and whether the warning was logged.
\<close>

definition Octree_insert :: "nat \<Rightarrow> (obj \<Rightarrow> box3) \<Rightarrow> obj \<Rightarrow> octree \<Rightarrow> (bool \<times> octree) result" where
  "Octree_insert k bb v s =
     (case objectToNode s v of
        Some node \<Rightarrow> Ok (False, s)
      | None \<Rightarrow>
          bnd (growLoop k bb v s) (\<lambda>(warned, s1).
            if warned then Ok (True, s1)
            else
              let emptyBefore = (count_n (heap s1 (root s1)) = 0) in
              bnd (nodeInsert k bb v (root s1) s1) (\<lambda>s2.
                if emptyBefore then bnd (shrink k s2) (\<lambda>s3. Ok (False, s3))
                else Ok (False, s2))))"

definition Octree_remove :: "nat \<Rightarrow> obj \<Rightarrow> octree \<Rightarrow> octree result" where
  "Octree_remove k v s =
     (case objectToNode s v of
        None \<Rightarrow> Ok s
      | Some node \<Rightarrow>
          bnd (nodeRemove k v node s) (\<lambda>s1.
            shrink k (s1\<lparr>objectToNode := (objectToNode s1)(v := None)\<rparr>)))"

definition Octree_update :: "nat \<Rightarrow> (obj \<Rightarrow> box3) \<Rightarrow> obj \<Rightarrow> octree \<Rightarrow> (bool \<times> octree) result" where
  "Octree_update k bb v s = bnd (Octree_remove k v s) (Octree_insert k bb v)"

section \<open>Ray casting\<close>

record OctreeIntersection =
  object :: obj
  point :: vec3
  distance :: rat

text \<open>
  \<^verbatim>\<open>Util.rayIntersectsBox\<close>, the object's \<^verbatim>\<open>isIntersectedByRay\<close> (which yields the hit
  point) and \<^verbatim>\<open>Vector3.distanceTo\<close> are not part of the file: they are the parameters
  \<open>rayBox\<close>, \<open>hit\<close> and \<open>distTo\<close>.
\<close>

definition looseBoundingBox :: "node \<Rightarrow> box3" where
  "looseBoundingBox n =
     Box3 (Vec3 (vx (min_n n) + - size_n n / 2) (vy (min_n n) + - size_n n / 2) (vz (min_n n) + - size_n n / 2))
          (Vec3 (vx (min_n n) + size_n n * 3 / 2) (vy (min_n n) + size_n n * 3 / 2) (vz (min_n n) + size_n n * 3 / 2))"

fun nodeRaycast :: "nat \<Rightarrow> (vec3 \<Rightarrow> vec3 \<Rightarrow> box3 \<Rightarrow> bool) \<Rightarrow> (obj \<Rightarrow> vec3 \<Rightarrow> vec3 \<Rightarrow> vec3 option)
    \<Rightarrow> (vec3 \<Rightarrow> vec3 \<Rightarrow> rat) \<Rightarrow> vec3 \<Rightarrow> vec3 \<Rightarrow> (addr \<Rightarrow> node) \<Rightarrow> addr
    \<Rightarrow> OctreeIntersection list \<Rightarrow> OctreeIntersection list result" where
  "nodeRaycast 0 rayBox hit distTo ro rd h a acc = OutOfFuel"
| "nodeRaycast (Suc k) rayBox hit distTo ro rd h a acc =
     (if \<not> rayBox ro rd (looseBoundingBox (h a)) then Ok acc
      else
        let acc1 = fold (\<lambda>v acc'. case hit v ro rd of
                             Some p \<Rightarrow> acc' @ [\<lparr>object = v, point = p, distance = distTo ro p\<rparr>]
                           | None \<Rightarrow> acc')
                     (objects (h a)) acc
        in case octants (h a) of
             None \<Rightarrow> Ok acc1
           | Some os \<Rightarrow> foldR (\<lambda>i acc'. nodeRaycast k rayBox hit distTo ro rd h (os ! i) acc') octantIndices acc1)"

text \<open>
  \<^verbatim>\<open>Octree.raycast\<close>: the hook \<^verbatim>\<open>beforeOperation\<close> runs first (it may change the tree),
  then the hits of the root's traversal are sorted by \<^verbatim>\<open>a.distance - b.distance\<close>
  (a stable sort).
\<close>

definition Octree_raycast :: "nat \<Rightarrow> (vec3 \<Rightarrow> vec3 \<Rightarrow> box3 \<Rightarrow> bool) \<Rightarrow> (obj \<Rightarrow> vec3 \<Rightarrow> vec3 \<Rightarrow> vec3 option)
    \<Rightarrow> (vec3 \<Rightarrow> vec3 \<Rightarrow> rat) \<Rightarrow> (octree \<Rightarrow> octree) option \<Rightarrow> vec3 \<Rightarrow> vec3 \<Rightarrow> octree
    \<Rightarrow> (OctreeIntersection list \<times> octree) result" where
  "Octree_raycast k rayBox hit distTo beforeOperation ro rd s =
     (let s1 = (case beforeOperation of None \<Rightarrow> s | Some f \<Rightarrow> f s) in
      bnd (nodeRaycast k rayBox hit distTo ro rd (heap s1) (root s1) [])
        (\<lambda>intersections. Ok (sort_key distance intersections, s1)))"

section \<open>Auxiliary definitions and example inputs\<close>

text \<open>The addresses of the eight nodes that \<^verbatim>\<open>createOctants\<close> allocates from \<open>b\<close> on.\<close>

definition octantAddrs :: "addr \<Rightarrow> addr list" where
  "octantAddrs b = map (\<lambda>i. b + i) octantIndices"

text \<open>Example inputs: bounding boxes, and the tree of a call that returned.\<close>

definition unitBox :: "obj \<Rightarrow> box3" where
  "unitBox v = Box3 (Vec3 (1/4) (1/4) (1/4)) (Vec3 (1/2) (1/2) (1/2))"

definition treeOf :: "(bool \<times> octree) result \<Rightarrow> octree" where
  "treeOf r = (case r of Ok (w, s) \<Rightarrow> s | _ \<Rightarrow> Octree_new)"

definition threeObjects :: octree where
  "threeObjects = fold (\<lambda>v s. treeOf (Octree_insert 2 unitBox v s)) [3, 1, 2] Octree_new"

definition exampleRayBox :: "vec3 \<Rightarrow> vec3 \<Rightarrow> box3 \<Rightarrow> bool" where
  "exampleRayBox ro rd b = True"

definition exampleHit :: "obj \<Rightarrow> vec3 \<Rightarrow> vec3 \<Rightarrow> vec3 option" where
  "exampleHit v ro rd = (if v = 2 then None else Some (Vec3 (of_nat v) 0 0))"

definition exampleDistTo :: "vec3 \<Rightarrow> vec3 \<Rightarrow> rat" where
  "exampleDistTo p q = abs (vx q - vx p)"

definition childObjects :: "(addr \<Rightarrow> node) \<Rightarrow> addr list \<Rightarrow> obj list" where
  "childObjects h os = concat (map (\<lambda>i. objects (h (os ! i))) octantIndices)"

definition grownOctants :: "addr \<Rightarrow> nat \<Rightarrow> addr \<Rightarrow> addr list" where
  "grownOctants n j r = (octantAddrs (Suc n))[j := r]"

definition fits :: "(obj \<Rightarrow> box3) \<Rightarrow> obj \<Rightarrow> octree \<Rightarrow> bool" where
  "fits bb v s = (largerThan bb (heap s (root s)) v \<and> containsCenter bb (heap s (root s)) v)"

definition deepTree :: octree where
  "deepTree = \<lparr>root = 0,
     heap = (\<lambda>_. blankNode)(0 := \<lparr>parent = None, min_n = Vec3 0 0 0, size_n = 2147483648, octants = None,
                                        objects = [1], count_n = 1, depth = - 31\<rparr>),
     nextAddr = 1, objectToNode = [1 \<mapsto> 0]\<rparr>"

definition deepBoxes :: "obj \<Rightarrow> box3" where
  "deepBoxes v = (if v = 1 then Box3 (Vec3 0 0 0) (Vec3 1073741824 1073741824 1073741824)
                  else Box3 (Vec3 0 0 0) (Vec3 4294967296 1 1))"

definition moveToOctant :: "nat \<Rightarrow> (obj \<Rightarrow> box3) \<Rightarrow> addr \<Rightarrow> obj \<Rightarrow> nat \<Rightarrow> octree \<Rightarrow> octree result" where
  "moveToOctant k bb a v j s3 =
     (if containsCenter bb (heap s3 (the (octants (heap s3 a)) ! j)) v then
        bnd (nodeInsert k bb v (the (octants (heap s3 a)) ! j) s3)
          (\<lambda>s4. Ok (upd a (\<lambda>n. n\<lparr>objects := set_delete v (objects n)\<rparr>) s4))
      else Ok s3)"

definition distribute :: "nat \<Rightarrow> (obj \<Rightarrow> box3) \<Rightarrow> addr \<Rightarrow> obj \<Rightarrow> octree \<Rightarrow> octree result" where
  "distribute k bb a v s2 =
     (if largerThan bb (heap s2 (the (octants (heap s2 a)) ! 0)) v then
        foldR (moveToOctant k bb a v) octantIndices s2
      else Ok s2)"

definition splitOctant :: "nat \<Rightarrow> (obj \<Rightarrow> box3) \<Rightarrow> addr \<Rightarrow> nat \<Rightarrow> octree \<Rightarrow> octree result" where
  "splitOctant k bb a i s6 = split k bb (the (octants (heap s6 a)) ! i) s6"

definition extends :: "octree \<Rightarrow> octree \<Rightarrow> bool" where
  "extends s s' = (root s' = root s \<and> nextAddr s \<le> nextAddr s' \<and>
     dom (objectToNode s) \<subseteq> dom (objectToNode s') \<and>
     (\<forall>b < nextAddr s. min_n (heap s' b) = min_n (heap s b) \<and> size_n (heap s' b) = size_n (heap s b)))"

definition boxOutside :: "node \<Rightarrow> box3 \<Rightarrow> bool" where
  "boxOutside n box =
     (vx (bmin box) \<le> vx (bmax box) \<and> vy (bmin box) \<le> vy (bmax box) \<and> vz (bmin box) \<le> vz (bmax box) \<and>
      (vx (bmax box) < vx (min_n n) \<or> vx (min_n n) + size_n n \<le> vx (bmin box) \<or>
       vy (bmax box) < vy (min_n n) \<or> vy (min_n n) + size_n n \<le> vy (bmin box) \<or>
       vz (bmax box) < vz (min_n n) \<or> vz (min_n n) + size_n n \<le> vz (bmin box)))"

definition nearBox :: "obj \<Rightarrow> box3" where
  "nearBox v = Box3 (Vec3 2 2 2) (Vec3 3 3 3)"

definition freshIfEmpty :: "octree \<Rightarrow> bool" where
  "freshIfEmpty s = (root s < nextAddr s \<and>
     (count_n (heap s (root s)) = 0 \<longrightarrow> octants (heap s (root s)) = None \<and> objects (heap s (root s)) = []))"

fun sizesHalved :: "nat \<Rightarrow> (addr \<Rightarrow> node) \<Rightarrow> addr \<Rightarrow> bool" where
  "sizesHalved 0 h a = (octants (h a) = None)"
| "sizesHalved (Suc n) h a =
     (case octants (h a) of
        None \<Rightarrow> True
      | Some os \<Rightarrow> list_all (\<lambda>i. size_n (h (os ! i)) = size_n (h a) / 2 \<and> sizesHalved n h (os ! i)) octantIndices)"

definition shrinkRoot :: node where
  "shrinkRoot = \<lparr>parent = None, min_n = Vec3 0 0 0, size_n = 1, octants = Some (octantAddrs 1),
     objects = [], count_n = 9, depth = 0\<rparr>"

definition shrinkChild :: node where
  "shrinkChild = (octantNode 0 shrinkRoot 0)\<lparr>octants := Some (octantAddrs 9),
     objects := [1, 2, 3, 4, 5, 6, 7, 8, 9], count_n := 9\<rparr>"

definition shrinkExample :: octree where
  "shrinkExample = \<lparr>root = 0,
     heap = (\<lambda>a. if a = 0 then shrinkRoot else if a = 1 then shrinkChild
                 else if a < 9 then octantNode 0 shrinkRoot (a - 1)
                 else if a < 17 then octantNode 1 shrinkChild (a - 9)
                 else blankNode),
     nextAddr = 17,
     objectToNode = (\<lambda>v. if 1 \<le> v \<and> v \<le> 9 then Some 1 else None)\<rparr>"

text \<open>A box on the negative x and z side of the unit cube, for growth into octant 5.\<close>

definition farBox :: "obj \<Rightarrow> box3" where
  "farBox v = Box3 (Vec3 (- 3) 2 (- 3)) (Vec3 (- 2) 3 (- 2))"

text \<open>
  The nodes a ray traversal enters: the root when the ray meets its loose bounding box,
  and each of the eight octants of an entered node whose own loose box the ray meets.
  \<open>hitsIn\<close> is the set of intersection records of the objects stored in a set of nodes.
\<close>

inductive_set visited :: "(vec3 \<Rightarrow> vec3 \<Rightarrow> box3 \<Rightarrow> bool) \<Rightarrow> vec3 \<Rightarrow> vec3 \<Rightarrow> (addr \<Rightarrow> node) \<Rightarrow> addr \<Rightarrow> addr set"
  for rayBox :: "vec3 \<Rightarrow> vec3 \<Rightarrow> box3 \<Rightarrow> bool" and ro :: vec3 and rd :: vec3 and h :: "addr \<Rightarrow> node" and r :: addr
  where
    visited_root: "rayBox ro rd (looseBoundingBox (h r)) \<Longrightarrow> r \<in> visited rayBox ro rd h r"
  | visited_octant: "a \<in> visited rayBox ro rd h r \<Longrightarrow> octants (h a) = Some os \<Longrightarrow> i < 8 \<Longrightarrow>
      rayBox ro rd (looseBoundingBox (h (os ! i))) \<Longrightarrow> os ! i \<in> visited rayBox ro rd h r"

definition hitsIn :: "(obj \<Rightarrow> vec3 \<Rightarrow> vec3 \<Rightarrow> vec3 option) \<Rightarrow> (vec3 \<Rightarrow> vec3 \<Rightarrow> rat) \<Rightarrow> vec3 \<Rightarrow> vec3
    \<Rightarrow> (addr \<Rightarrow> node) \<Rightarrow> addr set \<Rightarrow> OctreeIntersection set" where
  "hitsIn hit distTo ro rd h B =
     {e. \<exists>b v p. b \<in> B \<and> v \<in> set (objects (h b)) \<and> hit v ro rd = Some p \<and>
                 e = \<lparr>object = v, point = p, distance = distTo ro p\<rparr>}"

text \<open>
  \<open>treeWithin k h a\<close>: no path of octants from \<open>a\<close> is longer than \<open>k\<close> nodes, so \<open>k\<close>
  levels of recursion reach every node below \<open>a\<close>.
\<close>

fun treeWithin :: "nat \<Rightarrow> (addr \<Rightarrow> node) \<Rightarrow> addr \<Rightarrow> bool" where
  "treeWithin 0 h a = False"
| "treeWithin (Suc k) h a =
     (case octants (h a) of
        None \<Rightarrow> True
      | Some os \<Rightarrow> list_all (\<lambda>i. treeWithin k h (os ! i)) octantIndices)"

text \<open>An example ray test: a ray along the x axis meets a box when its origin lies in the
  box's y and z range.\<close>

definition rayBoxX :: "vec3 \<Rightarrow> vec3 \<Rightarrow> box3 \<Rightarrow> bool" where
  "rayBoxX ro rd b = (vy (bmin b) \<le> vy ro \<and> vy ro \<le> vy (bmax b) \<and> vz (bmin b) \<le> vz ro \<and> vz ro \<le> vz (bmax b))"

text \<open>
  Example: nine objects too large for an octant of the unit root (edge 3/4), so that the
  ninth \<^verbatim>\<open>insert\<close> splits the root and all nine stay in it.  \<open>addAtRoot\<close> is what
  \<^verbatim>\<open>insert\<close> does to a root that has no octants and room for the object.
\<close>

definition bigBox :: "obj \<Rightarrow> box3" where
  "bigBox v = Box3 (Vec3 0 0 0) (Vec3 (3/4) (3/4) (3/4))"

definition eightObjects :: octree where
  "eightObjects = fold (\<lambda>v s. treeOf (Octree_insert 2 bigBox v s)) [2, 3, 4, 5, 6, 7, 8, 9] Octree_new"

definition nineObjects :: octree where
  "nineObjects = treeOf (Octree_insert 3 bigBox 10 eightObjects)"

definition addAtRoot :: "obj \<Rightarrow> octree \<Rightarrow> octree" where
  "addAtRoot v s = addObject v (root s) (upd (root s) (\<lambda>n. n\<lparr>count_n := count_n n + 1\<rparr>) s)"

section \<open>The invariant of the tree\<close>

text \<open>
  \<open>reach h r\<close> are the nodes of the tree below \<open>r\<close>: \<open>r\<close> itself and, recursively, the
  members of the \<open>octants\<close> array of a node of the tree.
\<close>

inductive_set reach :: "(addr \<Rightarrow> node) \<Rightarrow> addr \<Rightarrow> addr set" for h :: "addr \<Rightarrow> node" and r :: addr where
  reach_self: "r \<in> reach h r"
| reach_octant: "a \<in> reach h r \<Longrightarrow> octants (h a) = Some os \<Longrightarrow> c \<in> set os \<Longrightarrow> c \<in> reach h r"

text \<open>
  The invariant of one node \<open>b\<close>.  Its objects are a set (no duplicates); an object is
  in them exactly when \<open>objectToNode\<close> maps it to \<open>b\<close>; a node without octants has as
  many objects as its \<open>count\<close> says and, unless it is at \<open>MAX_DEPTH\<close>, at most 8; a node
  with octants has eight different ones, whose parent it is and which are one level
  deeper, its \<open>count\<close> exceeds 8 and is the number of its own objects plus the counts
  of the octants.  Three parameters describe the states in the middle of an operation:
  \<open>d\<close> is what \<open>count\<close> is ahead by (1 at the node \<^verbatim>\<open>remove\<close> is about to decrement),
  \<open>strict\<close> switches the bound of 8 (off at the node \<^verbatim>\<open>split\<close> is called on), and the
  objects in \<open>X\<close> are in no node and exempt from the clause on \<open>objectToNode\<close> (the object
  \<^verbatim>\<open>remove\<close> has taken out of its node but not yet out of the map).
\<close>

definition nodeInv :: "int \<Rightarrow> bool \<Rightarrow> obj set \<Rightarrow> octree \<Rightarrow> addr \<Rightarrow> bool" where
  "nodeInv d strict X s b =
     (b < nextAddr s \<and> distinct (objects (heap s b)) \<and> set (objects (heap s b)) \<inter> X = {} \<and>
      (\<forall>x. x \<notin> X \<longrightarrow> (objectToNode s x = Some b) = (x \<in> set (objects (heap s b)))) \<and>
      (case octants (heap s b) of
         None \<Rightarrow> count_n (heap s b) - d = int (length (objects (heap s b))) \<and>
                 (strict \<longrightarrow> depth (heap s b) \<noteq> MAX_DEPTH \<longrightarrow> length (objects (heap s b)) \<le> 8)
       | Some os \<Rightarrow> length os = 8 \<and> distinct os \<and> count_n (heap s b) > 8 \<and>
                 count_n (heap s b) - d =
                   int (length (objects (heap s b))) + sum_list (map (\<lambda>c. count_n (heap s c)) os) \<and>
                 (\<forall>c \<in> set os. parent (heap s c) = Some b \<and> depth (heap s c) = depth (heap s b) + 1)))"

text \<open>
  \<open>treeOk\<close>: every node below \<open>a\<close> satisfies the invariant.  \<open>octreeOk\<close>: so does the
  whole tree, the root has no parent, and every tracked object is tracked to a node of
  the tree.
\<close>

definition treeOk :: "obj set \<Rightarrow> octree \<Rightarrow> addr \<Rightarrow> bool" where
  "treeOk X s a = (\<forall>b \<in> reach (heap s) a. nodeInv 0 True X s b)"

definition octreeOk :: "obj set \<Rightarrow> octree \<Rightarrow> bool" where
  "octreeOk X s = (treeOk X s (root s) \<and> parent (heap s (root s)) = None \<and>
     (\<forall>x b. x \<notin> X \<longrightarrow> objectToNode s x = Some b \<longrightarrow> b \<in> reach (heap s) (root s)))"

text \<open>
  What a call on the node \<open>a\<close> may do to the octree (\<open>s\<close> before, \<open>s'\<close> after): the
  subtree of \<open>a\<close> satisfies the invariant again; the root, and the parent and depth of
  \<open>a\<close> are kept; \<open>count\<close> of \<open>a\<close> has grown by \<open>d\<close>; the subtree consists of old nodes
  of the subtree and new nodes; the old nodes outside the subtree are untouched; an
  object outside \<open>V\<close> that was tracked to an old node outside the subtree still is; and
  an object tracked afterwards either was tracked to the same node outside the subtree
  or is now tracked into the subtree.
\<close>

definition subtreeStep :: "obj set \<Rightarrow> obj set \<Rightarrow> int \<Rightarrow> addr \<Rightarrow> octree \<Rightarrow> octree \<Rightarrow> bool" where
  "subtreeStep X V d a s s' =
     (treeOk X s' a \<and> root s' = root s \<and> nextAddr s \<le> nextAddr s' \<and>
      parent (heap s' a) = parent (heap s a) \<and> depth (heap s' a) = depth (heap s a) \<and>
      count_n (heap s' a) = count_n (heap s a) + d \<and>
      reach (heap s') a \<subseteq> reach (heap s) a \<union> {b. nextAddr s \<le> b} \<and>
      (\<forall>b. b < nextAddr s \<longrightarrow> b \<notin> reach (heap s) a \<longrightarrow> heap s' b = heap s b) \<and>
      (\<forall>x b. x \<notin> V \<longrightarrow> objectToNode s x = Some b \<longrightarrow> b \<notin> reach (heap s) a \<longrightarrow> b < nextAddr s
          \<longrightarrow> objectToNode s' x = Some b) \<and>
      (\<forall>x b. x \<notin> X \<longrightarrow> objectToNode s' x = Some b \<longrightarrow>
          (objectToNode s x = Some b \<and> b \<notin> reach (heap s) a) \<or> b \<in> reach (heap s') a))"

text \<open>\<open>kidsOk\<close>: \<open>a\<close> has the eight octants \<open>os\<close>, and the subtree of each is in order.\<close>

definition kidsOk :: "obj set \<Rightarrow> octree \<Rightarrow> addr \<Rightarrow> addr list \<Rightarrow> bool" where
  "kidsOk X t a os = (a < nextAddr t \<and> octants (heap t a) = Some os \<and> length os = 8 \<and> distinct os \<and>
     (\<forall>c \<in> set os. treeOk X t c \<and> parent (heap t c) = Some a \<and> depth (heap t c) = depth (heap t a) + 1))"

text \<open>\<open>otnAlloc\<close>: tracked objects are tracked to allocated nodes.\<close>

definition otnAlloc :: "obj set \<Rightarrow> octree \<Rightarrow> bool" where
  "otnAlloc X s = (\<forall>x b. x \<notin> X \<longrightarrow> objectToNode s x = Some b \<longrightarrow> b < nextAddr s)"

text \<open>
  The contracts of \<^verbatim>\<open>OctreeNode.insert\<close> and \<^verbatim>\<open>OctreeNode.split\<close> for \<open>k\<close> levels of
  recursion.  \<^verbatim>\<open>insert\<close> is called on a subtree in order that does not hold the object,
  and leaves the object tracked into the subtree, whose count is one more.  \<^verbatim>\<open>split\<close> is
  called on a node that may hold 9 objects without being split, and keeps the count.
\<close>

definition insertSpec :: "nat \<Rightarrow> (obj \<Rightarrow> box3) \<Rightarrow> obj set \<Rightarrow> bool" where
  "insertSpec k bb X = (\<forall>v a s s'. nodeInsert k bb v a s = Ok s' \<longrightarrow> treeOk X s a \<longrightarrow> otnAlloc X s \<longrightarrow>
     v \<notin> X \<longrightarrow> (\<forall>b \<in> reach (heap s) a. objectToNode s v \<noteq> Some b) \<longrightarrow>
     subtreeStep X {v} 1 a s s' \<and> (\<exists>b \<in> reach (heap s') a. objectToNode s' v = Some b))"

definition splitSpec :: "nat \<Rightarrow> (obj \<Rightarrow> box3) \<Rightarrow> obj set \<Rightarrow> bool" where
  "splitSpec k bb X = (\<forall>a s s'. split k bb a s = Ok s' \<longrightarrow>
     (\<forall>b \<in> reach (heap s) a. nodeInv 0 (b \<noteq> a) X s b) \<longrightarrow> otnAlloc X s \<longrightarrow>
     (depth (heap s a) \<noteq> MAX_DEPTH \<longrightarrow> count_n (heap s a) \<le> 9) \<longrightarrow>
     subtreeStep X {} 0 a s s')"

text \<open>
  The state in the two loops of \<^verbatim>\<open>split\<close> on node \<open>a\<close>, whose fields were \<open>A\<close> when
  \<^verbatim>\<open>createOctants\<close> made the octants at addresses \<open>n\<close>, ..., \<open>n + 7\<close>: the subtree is in
  order and octant \<open>i\<close> is the \<open>i\<close>-th half-size cell of \<open>A\<close>.
\<close>

definition splitting :: "obj set \<Rightarrow> addr \<Rightarrow> addr \<Rightarrow> node \<Rightarrow> octree \<Rightarrow> bool" where
  "splitting X a n A t = (treeOk X t a \<and> otnAlloc X t \<and> octants (heap t a) = Some (octantAddrs n) \<and>
     a < n \<and> n + 8 \<le> nextAddr t \<and>
     (\<forall>i<8. min_n (heap t (n + i)) = octantMin (min_n A) (size_n A / 2) i \<and>
             size_n (heap t (n + i)) = size_n A / 2))"

text \<open>
  The state in the loop of \<^verbatim>\<open>OctreeNode.remove\<close> that walks up the ancestors: the tree
  is in order except that \<open>count\<close> of node \<open>p\<close>, the next to be decremented, is one ahead.
\<close>

definition pendingOk :: "obj set \<Rightarrow> addr \<Rightarrow> octree \<Rightarrow> bool" where
  "pendingOk X p s = (p \<in> reach (heap s) (root s) \<and>
     (\<forall>b \<in> reach (heap s) (root s). nodeInv (if b = p then 1 else 0) True X s b) \<and>
     parent (heap s (root s)) = None \<and>
     (\<forall>x b. x \<notin> X \<longrightarrow> objectToNode s x = Some b \<longrightarrow> b \<in> reach (heap s) (root s)))"

text \<open>
  The octrees that the public operations produce: the new octree, and the result of
  every call of \<^verbatim>\<open>insert\<close>, \<^verbatim>\<open>remove\<close> and \<^verbatim>\<open>update\<close> that returns, whatever the
  bounding boxes are at the time of the call.
\<close>

inductive reachable :: "octree \<Rightarrow> bool" where
  reachable_new: "reachable Octree_new"
| reachable_insert: "reachable s \<Longrightarrow> Octree_insert k bb v s = Ok (w, s') \<Longrightarrow> reachable s'"
| reachable_remove: "reachable s \<Longrightarrow> Octree_remove k v s = Ok s' \<Longrightarrow> reachable s'"
| reachable_update: "reachable s \<Longrightarrow> Octree_update k bb v s = Ok (w, s') \<Longrightarrow> reachable s'"

section \<open>Basic facts\<close>

lemma bnd_Ok_iff: "bnd m f = Ok w \<longleftrightarrow> (\<exists>u. m = Ok u \<and> f u = Ok w)"
  by (cases m) (simp_all add: bnd_def)

lemma foldR_invariant:
  assumes "foldR f vs s = Ok s'" and "P s"
    and "\<And>v t t'. v \<in> set vs \<Longrightarrow> P t \<Longrightarrow> f v t = Ok t' \<Longrightarrow> P t'"
  shows "P s'"
  using assms
  by (induction vs arbitrary: s) (auto simp: bnd_Ok_iff)

lemma upd_simps [simp]:
  "heap (upd a f s) = (heap s)(a := f (heap s a))"
  "root (upd a f s) = root s"
  "nextAddr (upd a f s) = nextAddr s"
  "objectToNode (upd a f s) = objectToNode s"
  by (simp_all add: upd_def)

lemma addObject_simps [simp]:
  "heap (addObject v a s) = (heap s)(a := (heap s a)\<lparr>objects := set_add v (objects (heap s a))\<rparr>)"
  "root (addObject v a s) = root s"
  "nextAddr (addObject v a s) = nextAddr s"
  "objectToNode (addObject v a s) = (objectToNode s)(v \<mapsto> a)"
  by (simp_all add: addObject_def)

lemma createOctants_simps:
  assumes "a < nextAddr s"
  shows "root (createOctants a s) = root s"
    and "nextAddr (createOctants a s) = nextAddr s + 8"
    and "objectToNode (createOctants a s) = objectToNode s"
    and "heap (createOctants a s) = (\<lambda>b. if b = a then (heap s a)\<lparr>octants := Some (octantAddrs (nextAddr s))\<rparr>
            else if nextAddr s \<le> b \<and> b < nextAddr s + 8 then octantNode a (heap s a) (b - nextAddr s)
            else heap s b)"
  using assms
  by (auto simp add: createOctants_def octantIndices_def alloc_def octantAddrs_def fun_eq_iff Let_def)

section \<open>Ray casting returns the sorted hits\<close>

lemma visited_empty:
  assumes "\<not> rayBox ro rd (looseBoundingBox (h r))"
  shows "visited rayBox ro rd h r = {}"
proof -
  have False if "b \<in> visited rayBox ro rd h r" for b
    using that by (induction rule: visited.induct) (use assms in auto)
  then show ?thesis by auto
qed

lemma visited_leaf:
  assumes "rayBox ro rd (looseBoundingBox (h r))" and "octants (h r) = None"
  shows "visited rayBox ro rd h r = {r}"
proof -
  have "b = r" if "b \<in> visited rayBox ro rd h r" for b
    using that by (induction rule: visited.induct) (use assms in auto)
  then show ?thesis using assms(1) by (auto intro: visited_root)
qed

lemma visited_inner:
  assumes rb: "rayBox ro rd (looseBoundingBox (h a))" and os: "octants (h a) = Some os"
  shows "visited rayBox ro rd h a = insert a (\<Union>i \<in> {..<8}. visited rayBox ro rd h (os ! i))"
proof (intro equalityI subsetI)
  fix b assume "b \<in> visited rayBox ro rd h a"
  then show "b \<in> insert a (\<Union>i \<in> {..<8}. visited rayBox ro rd h (os ! i))"
  proof (induction rule: visited.induct)
    case visited_root
    then show ?case by simp
  next
    case (visited_octant p os' i)
    from visited_octant(5) show ?case
    proof
      assume "p = a"
      with visited_octant(2) os have "os' = os" by simp
      with visited_octant(3,4) show ?thesis by (auto intro: visited.visited_root)
    next
      assume "p \<in> (\<Union>i \<in> {..<8}. visited rayBox ro rd h (os ! i))"
      then obtain j where "j < 8" "p \<in> visited rayBox ro rd h (os ! j)" by auto
      with visited_octant(2,3,4) show ?thesis by (auto intro: visited.visited_octant)
    qed
  qed
next
  fix b assume "b \<in> insert a (\<Union>i \<in> {..<8}. visited rayBox ro rd h (os ! i))"
  then consider "b = a" | i where "i < 8" "b \<in> visited rayBox ro rd h (os ! i)" by auto
  then show "b \<in> visited rayBox ro rd h a"
  proof cases
    case 1
    then show ?thesis using rb by (auto intro: visited_root)
  next
    case 2
    from 2(2) show ?thesis
    proof (induction rule: visited.induct)
      case visited_root
      have "a \<in> visited rayBox ro rd h a" using rb by (rule visited.visited_root)
      then show ?case using os 2(1) visited_root by (rule visited.visited_octant)
    next
      case (visited_octant p os' j)
      from visited_octant(5) visited_octant(2,3,4) show ?case by (rule visited.visited_octant)
    qed
  qed
qed

lemma fold_hits_set:
  "set (fold (\<lambda>v acc'. case hit v ro rd of
                 Some p \<Rightarrow> acc' @ [\<lparr>object = v, point = p, distance = distTo ro p\<rparr>]
               | None \<Rightarrow> acc') vs acc) =
   set acc \<union> {e. \<exists>v p. v \<in> set vs \<and> hit v ro rd = Some p \<and>
                      e = \<lparr>object = v, point = p, distance = distTo ro p\<rparr>}"
proof (induction vs arbitrary: acc)
  case Nil
  then show ?case by simp
next
  case (Cons w vs)
  show ?case
  proof (cases "hit w ro rd")
    case None
    then show ?thesis by (simp add: Cons.IH) (metis option.distinct(1))
  next
    case (Some q)
    then show ?thesis by (simp add: Cons.IH) force
  qed
qed

lemma foldR_set:
  assumes "foldR f js acc = Ok res"
    and "\<And>j acc r. j \<in> set js \<Longrightarrow> f j acc = Ok r \<Longrightarrow> set r = set acc \<union> G j"
  shows "set res = set acc \<union> (\<Union>j \<in> set js. G j)"
  using assms
proof (induction js arbitrary: acc)
  case Nil
  then show ?case by simp
next
  case (Cons j js)
  from Cons.prems(1) obtain u where u: "f j acc = Ok u" and rest: "foldR f js u = Ok res"
    by (auto simp: bnd_Ok_iff)
  have 1: "set u = set acc \<union> G j" using Cons.prems(2)[of j acc u] u by simp
  have "set res = set u \<union> (\<Union>j \<in> set js. G j)"
    using rest
  proof (rule Cons.IH)
    show "set r = set acc' \<union> G i" if "i \<in> set js" "f i acc' = Ok r" for i acc' r
      using that Cons.prems(2)[of i acc' r] by simp
  qed
  with 1 show ?case by auto
qed

lemma foldR_total:
  assumes "\<And>j acc. j \<in> set js \<Longrightarrow> \<exists>r. f j acc = Ok r"
  shows "\<exists>r. foldR f js acc = Ok r"
  using assms
proof (induction js arbitrary: acc)
  case Nil
  then show ?case by simp
next
  case (Cons j js)
  from Cons.prems[of j acc] obtain u where u: "f j acc = Ok u" by auto
  have "\<exists>r. foldR f js u = Ok r"
  proof (rule Cons.IH)
    show "\<exists>r. f i acc' = Ok r" if "i \<in> set js" for i acc'
      using that Cons.prems[of i acc'] by simp
  qed
  with u show ?case by (simp add: bnd_def)
qed

lemma hitsIn_simps:
  "hitsIn hit distTo ro rd h {} = {}"
  "hitsIn hit distTo ro rd h (insert a B) =
     {e. \<exists>v p. v \<in> set (objects (h a)) \<and> hit v ro rd = Some p \<and>
                e = \<lparr>object = v, point = p, distance = distTo ro p\<rparr>} \<union> hitsIn hit distTo ro rd h B"
  "hitsIn hit distTo ro rd h (\<Union>i \<in> I. F i) = (\<Union>i \<in> I. hitsIn hit distTo ro rd h (F i))"
  unfolding hitsIn_def by blast+

lemma nodeRaycast_set:
  "nodeRaycast k rayBox hit distTo ro rd h a acc = Ok res \<Longrightarrow>
   set res = set acc \<union> hitsIn hit distTo ro rd h (visited rayBox ro rd h a)"
proof (induction k arbitrary: a acc res)
  case 0
  then show ?case by simp
next
  case (Suc k)
  let ?acc1 = "fold (\<lambda>v acc'. case hit v ro rd of
                             Some p \<Rightarrow> acc' @ [\<lparr>object = v, point = p, distance = distTo ro p\<rparr>]
                           | None \<Rightarrow> acc') (objects (h a)) acc"
  show ?case
  proof (cases "rayBox ro rd (looseBoundingBox (h a))")
    case False
    with Suc.prems show ?thesis by (simp add: visited_empty hitsIn_simps)
  next
    case True
    show ?thesis
    proof (cases "octants (h a)")
      case None
      with True Suc.prems have "res = ?acc1" by (simp add: Let_def)
      then show ?thesis
        by (simp add: visited_leaf[where rayBox = rayBox and h = h, OF True None] hitsIn_simps fold_hits_set)
    next
      case (Some os)
      with True Suc.prems have
        f: "foldR (\<lambda>i acc'. nodeRaycast k rayBox hit distTo ro rd h (os ! i) acc') octantIndices ?acc1 = Ok res"
        by (simp add: Let_def)
      have "set res = set ?acc1 \<union>
          (\<Union>i \<in> set octantIndices. hitsIn hit distTo ro rd h (visited rayBox ro rd h (os ! i)))"
        using f by (rule foldR_set) (rule Suc.IH)
      moreover have "set octantIndices = {..<8}" by (auto simp: octantIndices_def)
      ultimately show ?thesis
        by (simp add: visited_inner[where rayBox = rayBox and h = h, OF True Some] hitsIn_simps fold_hits_set Un_assoc)
    qed
  qed
qed

lemma nodeRaycast_total:
  "treeWithin k h a \<Longrightarrow> \<exists>res. nodeRaycast k rayBox hit distTo ro rd h a acc = Ok res"
proof (induction k arbitrary: a acc)
  case 0
  then show ?case by simp
next
  case (Suc k)
  show ?case
  proof (cases "octants (h a)")
    case None
    then show ?thesis by (simp add: Let_def)
  next
    case (Some os)
    with Suc.prems have kids: "\<And>i. i \<in> set octantIndices \<Longrightarrow> treeWithin k h (os ! i)"
      by (simp add: list_all_iff)
    have "\<exists>r. foldR (\<lambda>i acc'. nodeRaycast k rayBox hit distTo ro rd h (os ! i) acc') octantIndices acc1 = Ok r"
      for acc1
      by (rule foldR_total) (use kids Suc.IH in blast)
    with Some show ?thesis by (simp add: Let_def)
  qed
qed

text \<open>
  C8.  On a tree of at most \<open>k\<close> levels (after the hook has run), \<^verbatim>\<open>raycast\<close> with \<open>k\<close>
  levels of recursion returns.  Its list is ascending in \<open>distance\<close>; its elements are
  exactly the intersection records of the objects that are hit and stored in a node the
  traversal enters (the root and, recursively, the octants whose loose bounding box the
  ray meets); it is the stable sort of the list the root traversal collected, with the
  same multiplicities.  The list may be empty.
\<close>

theorem raycast_all_hits_sorted:
  assumes "treeWithin k (heap (case beforeOperation of None \<Rightarrow> s | Some f \<Rightarrow> f s))
             (root (case beforeOperation of None \<Rightarrow> s | Some f \<Rightarrow> f s))"
  shows "\<exists>res hits. Octree_raycast k rayBox hit distTo beforeOperation ro rd s =
             Ok (res, case beforeOperation of None \<Rightarrow> s | Some f \<Rightarrow> f s) \<and>
           sorted (map distance res) \<and>
           set res = hitsIn hit distTo ro rd (heap (case beforeOperation of None \<Rightarrow> s | Some f \<Rightarrow> f s))
                       (visited rayBox ro rd (heap (case beforeOperation of None \<Rightarrow> s | Some f \<Rightarrow> f s))
                          (root (case beforeOperation of None \<Rightarrow> s | Some f \<Rightarrow> f s))) \<and>
           nodeRaycast k rayBox hit distTo ro rd (heap (case beforeOperation of None \<Rightarrow> s | Some f \<Rightarrow> f s))
              (root (case beforeOperation of None \<Rightarrow> s | Some f \<Rightarrow> f s)) [] = Ok hits \<and>
           res = sort_key distance hits \<and> mset res = mset hits"
proof -
  let ?s1 = "case beforeOperation of None \<Rightarrow> s | Some f \<Rightarrow> f s"
  from nodeRaycast_total[OF assms] obtain hits where
    h: "nodeRaycast k rayBox hit distTo ro rd (heap ?s1) (root ?s1) [] = Ok hits" by blast
  then have r: "Octree_raycast k rayBox hit distTo beforeOperation ro rd s = Ok (sort_key distance hits, ?s1)"
    by (simp add: Octree_raycast_def Let_def bnd_def)
  from nodeRaycast_set[OF h] have "set (sort_key distance hits) =
      hitsIn hit distTo ro rd (heap ?s1) (visited rayBox ro rd (heap ?s1) (root ?s1))" by simp
  with h r show ?thesis by simp
qed

theorem raycast_all_hits_sorted_witness:
  "treeWithin 3 (heap shrinkExample) (root shrinkExample) \<and>
   (case Octree_raycast 3 rayBoxX exampleHit exampleDistTo None (Vec3 5 0 0) (Vec3 1 0 0) shrinkExample of
      Ok (res, s') \<Rightarrow> map object res = [5, 4, 6, 3, 7, 8, 1, 9] \<and> sorted (map distance res)
    | _ \<Rightarrow> False)"
proof -
  have tw: "treeWithin 3 (heap shrinkExample) (root shrinkExample)"
    by code_simp
  then have tw': "treeWithin 3 (heap (case None of None \<Rightarrow> shrinkExample | Some f \<Rightarrow> f shrinkExample))
       (root (case None of None \<Rightarrow> shrinkExample | Some f \<Rightarrow> f shrinkExample))"
    by simp
  have "case Octree_raycast 3 rayBoxX exampleHit exampleDistTo None (Vec3 5 0 0) (Vec3 1 0 0) shrinkExample of
      Ok (res, s') \<Rightarrow> map object res = [5, 4, 6, 3, 7, 8, 1, 9] | _ \<Rightarrow> False"
    by code_simp
  then obtain res s' where
    eq: "Octree_raycast 3 rayBoxX exampleHit exampleDistTo None (Vec3 5 0 0) (Vec3 1 0 0) shrinkExample = Ok (res, s')"
    and res: "map object res = [5, 4, 6, 3, 7, 8, 1, 9]"
    by (auto split: result.splits)
  from raycast_all_hits_sorted[OF tw', where rayBox = rayBoxX and hit = exampleHit and distTo = exampleDistTo
      and ro = "Vec3 5 0 0" and rd = "Vec3 1 0 0"] eq
  have "sorted (map distance res)" by auto
  with tw res show ?thesis
    unfolding eq by simp
qed

section \<open>Update of an untracked object\<close>

lemma Octree_remove_untracked: "objectToNode s v = None \<Longrightarrow> Octree_remove k v s = Ok s"
  by (simp add: Octree_remove_def)

text \<open>
  C3, as the code has it.  \<^verbatim>\<open>update\<close> is \<^verbatim>\<open>remove\<close> followed by \<^verbatim>\<open>insert\<close>; for an
  untracked object the \<^verbatim>\<open>remove\<close> does nothing, so \<^verbatim>\<open>update\<close> does exactly what
  \<^verbatim>\<open>insert\<close> does: it is not a no-op.
\<close>

theorem update_untracked_eq_insert:
  "objectToNode s v = None \<Longrightarrow> Octree_update k bb v s = Octree_insert k bb v s"
  by (simp add: Octree_update_def Octree_remove_untracked bnd_def)

theorem update_untracked_eq_insert_witness:
  "objectToNode threeObjects 7 = None \<and>
   Octree_update 2 unitBox 7 threeObjects = Octree_insert 2 unitBox 7 threeObjects"
proof -
  have h: "objectToNode threeObjects 7 = None" by code_simp
  from update_untracked_eq_insert[OF h] h show ?thesis by simp
qed

text \<open>
  C3 as stated fails: on the new, empty tree object 1 is untracked, and after
  \<^verbatim>\<open>update\<close> it is tracked, in the root.
\<close>

theorem update_untracked_inserts:
  "objectToNode Octree_new 1 = None \<and>
   (case Octree_update 2 unitBox 1 Octree_new of
      Ok (w, s') \<Rightarrow> objectToNode s' 1 = Some (root s') \<and> objects (heap s' (root s')) = [1]
    | _ \<Rightarrow> False)"
  by code_simp

section \<open>Sets, createOctants, merge and grow in closed form\<close>


lemma set_set_add [simp]: "set (set_add v vs) = insert v (set vs)"
  by (auto simp: set_add_def)

lemma distinct_set_add [simp]: "distinct vs \<Longrightarrow> distinct (set_add v vs)"
  by (auto simp: set_add_def)

lemma set_set_delete [simp]: "set (set_delete v vs) = set vs - {v}"
  by (auto simp: set_delete_def)

lemma createOctants_frame [simp]:
  "root (createOctants a s) = root s"
  "objectToNode (createOctants a s) = objectToNode s"
  "nextAddr (createOctants a s) = nextAddr s + 8"
  by (simp_all add: createOctants_def octantIndices_def alloc_def Let_def split: prod.splits)

lemma createOctants_old:
  "b < nextAddr s \<Longrightarrow> b \<noteq> a \<Longrightarrow> heap (createOctants a s) b = heap s b"
  by (simp add: createOctants_def octantIndices_def alloc_def Let_def split: prod.splits)

lemma createOctants_geometry:
  "b < nextAddr s \<Longrightarrow> min_n (heap (createOctants a s) b) = min_n (heap s b) \<and>
     size_n (heap (createOctants a s) b) = size_n (heap s b)"
  by (simp add: createOctants_def octantIndices_def alloc_def Let_def split: prod.splits)

(* fold of addObject *)

lemma fold_addObject:
  "fold (\<lambda>v. addObject v a) vs s =
     s\<lparr>heap := (heap s)(a := (heap s a)\<lparr>objects := fold set_add vs (objects (heap s a))\<rparr>),
       objectToNode := (\<lambda>x. if x \<in> set vs then Some a else objectToNode s x)\<rparr>"
proof (induction vs arbitrary: s)
  case Nil
  then show ?case by simp
next
  case (Cons v vs)
  show ?case
    apply (simp only: fold.simps o_apply Cons.IH)
    apply (simp add: addObject_def upd_def fun_eq_iff)
    done
qed

lemma set_fold_set_add [simp]: "set (fold set_add vs ws) = set ws \<union> set vs"
  by (induction vs arbitrary: ws) auto

lemma distinct_fold_set_add [simp]: "distinct ws \<Longrightarrow> distinct (fold set_add vs ws)"
  by (induction vs arbitrary: ws) auto

(* merge frame, unconditional *)

lemma merge_inner_frame:
  "root (fold (\<lambda>v s3. addObject v a s3) vs s) = root s \<and>
   nextAddr (fold (\<lambda>v s3. addObject v a s3) vs s) = nextAddr s \<and>
   dom (objectToNode s) \<subseteq> dom (objectToNode (fold (\<lambda>v s3. addObject v a s3) vs s)) \<and>
   (\<forall>b. b \<noteq> a \<longrightarrow> heap (fold (\<lambda>v s3. addObject v a s3) vs s) b = heap s b)"
  by (simp add: fold_addObject) auto

lemma merge_fold_eq:
  assumes "\<forall>i \<in> set js. os ! i \<noteq> a"
  shows "fold (\<lambda>i s2. fold (\<lambda>v s3. addObject v a s3) (objects (heap s2 (os ! i))) s2) js s =
         fold (\<lambda>v. addObject v a) (concat (map (\<lambda>i. objects (heap s (os ! i))) js)) s"
  using assms
proof (induction js arbitrary: s)
  case Nil
  then show ?case by simp
next
  case (Cons j js)
  let ?s1 = "fold (\<lambda>v. addObject v a) (objects (heap s (os ! j))) s"
  have h: "\<And>b. b \<noteq> a \<Longrightarrow> heap ?s1 b = heap s b"
    by (simp add: fold_addObject)
  have "map (\<lambda>i. objects (heap ?s1 (os ! i))) js = map (\<lambda>i. objects (heap s (os ! i))) js"
    using Cons.prems by (intro map_cong refl) (simp add: h)
  with Cons.IH[of ?s1] Cons.prems show ?case by simp
qed

lemma merge_eq:
  assumes "octants (heap s a) = Some os" and "count_n (heap s a) \<le> 8"
    and "\<forall>i \<in> set octantIndices. os ! i \<noteq> a"
  shows "merge a s =
     s\<lparr>heap := (heap s)(a := (heap s a)\<lparr>objects := fold set_add (childObjects (heap s) os) (objects (heap s a)),
                                       octants := None\<rparr>),
       objectToNode := (\<lambda>x. if x \<in> set (childObjects (heap s) os) then Some a else objectToNode s x)\<rparr>"
proof -
  have "merge a s = upd a (\<lambda>n. n\<lparr>octants := None\<rparr>)
      (fold (\<lambda>v. addObject v a) (childObjects (heap s) os) s)"
    using assms(1,2) by (simp add: merge_def merge_fold_eq[OF assms(3)] childObjects_def)
  then show ?thesis
    by (simp add: fold_addObject upd_def)
qed

lemma merge_noop:
  "octants (heap s a) = None \<or> count_n (heap s a) > 8 \<Longrightarrow> merge a s = s"
  by (auto simp: merge_def split: option.splits)

lemma merge_frame:
  "root (merge a s) = root s"
  "nextAddr (merge a s) = nextAddr s"
  "b \<noteq> a \<Longrightarrow> heap (merge a s) b = heap s b"
  "dom (objectToNode s) \<subseteq> dom (objectToNode (merge a s))"
proof -
  have P: "\<And>js s. (let t = fold (\<lambda>i s2. fold (\<lambda>v s3. addObject v a s3) (objects (heap s2 (os ! i))) s2) js s
       in root t = root s \<and> nextAddr t = nextAddr s \<and> (\<forall>b. b \<noteq> a \<longrightarrow> heap t b = heap s b) \<and>
          dom (objectToNode s) \<subseteq> dom (objectToNode t))" for os
  proof -
    fix js s show "?thesis js s"
    proof (induction js arbitrary: s)
      case Nil
      then show ?case by simp
    next
      case (Cons j js)
      let ?s1 = "fold (\<lambda>v s3. addObject v a s3) (objects (heap s (os ! j))) s"
      from Cons.IH[of ?s1] merge_inner_frame[of a "objects (heap s (os ! j))" s]
      show ?case by (simp add: Let_def) blast
    qed
  qed
  show "root (merge a s) = root s" "nextAddr (merge a s) = nextAddr s"
    "b \<noteq> a \<Longrightarrow> heap (merge a s) b = heap s b"
    "dom (objectToNode s) \<subseteq> dom (objectToNode (merge a s))"
    using P[of _ octantIndices s]
    by (auto simp: merge_def Let_def split: option.splits)
qed

lemma octantIndex_less: "octantIndex d < 8"
  by (simp add: octantIndex_def)

lemma length_octantAddrs [simp]: "length (octantAddrs b) = 8"
  by (simp add: octantAddrs_def octantIndices_def)

lemma nth_octantAddrs [simp]: "i < 8 \<Longrightarrow> octantAddrs b ! i = b + i"
proof -
  assume "i < 8"
  then have "i \<in> {0,1,2,3,4,5,6,7}" by auto
  then show ?thesis
    by (auto simp: octantAddrs_def octantIndices_def)
qed

lemma set_octantIndices [simp]: "set octantIndices = {..<8}"
  by (auto simp: octantIndices_def)

lemma octantIndices_upt: "octantIndices = [0..<8]"
  by (simp add: octantIndices_def upt_rec)

lemma childObjects_single:
  assumes "j < 8" and "length os = 8" and "\<forall>i<8. i \<noteq> j \<longrightarrow> objects (h (os ! i)) = []"
  shows "childObjects h os = objects (h (os ! j))"
proof -
  have "concat (map (\<lambda>i. objects (h (os ! i))) [0..<m]) = (if j < m then objects (h (os ! j)) else [])"
    if "m \<le> 8" for m
    using that
  proof (induction m)
    case 0
    then show ?case by simp
  next
    case (Suc m)
    then show ?case using assms(3) by (auto simp: less_Suc_eq)
  qed
  from this[of 8] assms(1) show ?thesis
    by (simp add: childObjects_def octantIndices_upt)
qed

lemma grow_empty:
  assumes "count_n (heap s (root s)) \<le> 0" and "root s < nextAddr s"
  shows "grow bb v s = s\<lparr>heap := (heap s)(nextAddr s := newRootNode (heap s (root s)) (growDirection (heap s (root s)) (bb v))),
           nextAddr := Suc (nextAddr s), root := nextAddr s\<rparr>"
  using assms by (simp add: grow_def growAlloc_def alloc_def Let_def)

lemma createOctants_eq:
  assumes "a < nextAddr s"
  shows "createOctants a s = s\<lparr>heap := (\<lambda>b. if b = a then (heap s a)\<lparr>octants := Some (octantAddrs (nextAddr s))\<rparr>
            else if nextAddr s \<le> b \<and> b < nextAddr s + 8 then octantNode a (heap s a) (b - nextAddr s)
            else heap s b), nextAddr := nextAddr s + 8\<rparr>"
  using assms
  by (auto simp add: createOctants_def octantIndices_def alloc_def octantAddrs_def fun_eq_iff Let_def upd_def)

lemma grow_split:
  assumes "count_n (heap s (root s)) > 8" and "root s < nextAddr s"
  shows "grow bb v s =
     (let r = root s; n = nextAddr s; d = growDirection (heap s r) (bb v); N = newRootNode (heap s r) d in
      s\<lparr>heap := (\<lambda>b. if b = n then N\<lparr>octants := Some (grownOctants n (octantIndex d) r), count_n := count_n (heap s r)\<rparr>
                    else if Suc n \<le> b \<and> b < n + 9 then octantNode n N (b - Suc n)
                    else if b = r then (heap s r)\<lparr>parent := Some n\<rparr>
                    else heap s b),
        nextAddr := n + 9, root := n\<rparr>)"
proof -
  let ?n = "nextAddr s"
  let ?N = "newRootNode (heap s (root s)) (growDirection (heap s (root s)) (bb v))"
  let ?s1 = "s\<lparr>heap := (heap s)(?n := ?N), nextAddr := Suc ?n\<rparr>"
  have lt: "?n < nextAddr ?s1" by simp
  show ?thesis
    using assms
    apply (simp add: grow_def growAlloc_def alloc_def Let_def)
    apply (simp add: createOctants_eq[OF lt] merge_noop grownOctants_def)
    apply (rule octree.equality; simp add: fun_eq_iff upd_def grownOctants_def)
    done
qed

lemma grow_merge:
  assumes "0 < count_n (heap s (root s))" and "count_n (heap s (root s)) \<le> 8" and "root s < nextAddr s"
  shows "grow bb v s =
     (let r = root s; n = nextAddr s; d = growDirection (heap s r) (bb v); N = newRootNode (heap s r) d in
      s\<lparr>heap := (\<lambda>b. if b = n then N\<lparr>objects := fold set_add (objects (heap s r)) [], count_n := count_n (heap s r)\<rparr>
                    else if Suc n \<le> b \<and> b < n + 9 then octantNode n N (b - Suc n)
                    else if b = r then (heap s r)\<lparr>parent := Some n\<rparr>
                    else heap s b),
        nextAddr := n + 9, root := n,
        objectToNode := (\<lambda>x. if x \<in> set (objects (heap s r)) then Some n else objectToNode s x)\<rparr>)"
proof -
  let ?n = "nextAddr s" and ?r = "root s"
  let ?d = "growDirection (heap s (root s)) (bb v)"
  let ?N = "newRootNode (heap s (root s)) ?d"
  let ?s1 = "s\<lparr>heap := (heap s)(?n := ?N), nextAddr := Suc ?n\<rparr>"
  let ?os = "grownOctants ?n (octantIndex ?d) ?r"
  let ?h5 = "(\<lambda>b. if b = ?n then ?N\<lparr>octants := Some ?os, count_n := count_n (heap s ?r)\<rparr>
                    else if Suc ?n \<le> b \<and> b < ?n + 9 then octantNode ?n ?N (b - Suc ?n)
                    else if b = ?r then (heap s ?r)\<lparr>parent := Some ?n\<rparr>
                    else heap s b)"
  let ?s5 = "s\<lparr>heap := ?h5, nextAddr := ?n + 9\<rparr>"
  have lt: "?n < nextAddr ?s1" by simp
  have g: "grow bb v s = (merge ?n ?s5)\<lparr>root := ?n\<rparr>"
    using assms
    apply (simp add: grow_def growAlloc_def alloc_def Let_def)
    apply (simp add: createOctants_eq[OF lt] grownOctants_def)
    apply (rule arg_cong[where f = "\<lambda>t. (merge (nextAddr s) t)\<lparr>root := nextAddr s\<rparr>"])
    apply (rule octree.equality; simp add: fun_eq_iff upd_def grownOctants_def)
    done
  have nth: "?os ! i = (if i = octantIndex ?d then ?r else Suc ?n + i)" if "i < 8" for i
    using that by (simp add: grownOctants_def nth_list_update)
  have ne: "\<forall>i \<in> set octantIndices. ?os ! i \<noteq> ?n"
    using assms(3) by (auto simp: nth)
  have co: "childObjects ?h5 ?os = objects (heap s ?r)"
  proof -
    have "childObjects ?h5 ?os = objects (?h5 (?os ! octantIndex ?d))"
      by (rule childObjects_single) (use assms(3) in \<open>auto simp: nth octantIndex_less grownOctants_def octantNode_def\<close>)
    also have "\<dots> = objects (heap s ?r)"
      using assms(3) by (simp add: nth octantIndex_less)
    finally show ?thesis .
  qed
  have m: "merge ?n ?s5 = ?s5\<lparr>heap := (heap ?s5)(?n := (heap ?s5 ?n)\<lparr>objects := fold set_add (childObjects (heap ?s5) ?os) (objects (heap ?s5 ?n)),
                                       octants := None\<rparr>),
       objectToNode := (\<lambda>x. if x \<in> set (childObjects (heap ?s5) ?os) then Some ?n else objectToNode ?s5 x)\<rparr>"
    by (rule merge_eq) (use assms ne in \<open>simp_all\<close>)
  show ?thesis
    unfolding g m
    apply (simp add: co Let_def)
    apply (rule octree.equality; simp add: fun_eq_iff newRootNode_def)
    done
qed

section \<open>The octant that receives the old root\<close>

text \<open>
  C10.  When \<^verbatim>\<open>grow\<close> runs on a non-empty root \<open>r\<close>, the new root \<open>n\<close> is a fresh node
  and \<open>r\<close> becomes its child: \<open>r\<close> keeps its min corner and size, and these are exactly
  the min corner and size of the cell of \<open>n\<close> at the computed octant index \<open>i\<close> (half of
  \<open>n\<close>'s size, shifted by the bits of \<open>i\<close>), which are also those of the node that
  \<^verbatim>\<open>createOctants\<close> made for slot \<open>i\<close> (at address \<open>n + 1 + i\<close>) and that \<open>r\<close> replaces.
  This holds for every direction of growth (a component that is zero or NaN counts as
  non-negative in both the shift of the min corner and the octant index).  With more
  than 8 objects the octant array of \<open>n\<close> holds \<open>r\<close> in slot \<open>i\<close> and the fresh cells in
  the other slots; with at most 8 objects \<^verbatim>\<open>merge\<close> then drops the octant array.
\<close>

theorem grow_old_root_slot:
  assumes "0 < count_n (heap s (root s))" and "root s < nextAddr s"
  shows "(let r = root s; g = grow bb v s; n = root g;
              i = octantIndex (growDirection (heap s r) (bb v)) in
          n = nextAddr s \<and> i < 8 \<and>
          parent (heap g r) = Some n \<and>
          min_n (heap g r) = min_n (heap s r) \<and> size_n (heap g r) = size_n (heap s r) \<and>
          octantMin (min_n (heap g n)) (size_n (heap g n) / 2) i = min_n (heap s r) \<and>
          size_n (heap g n) / 2 = size_n (heap s r) \<and>
          min_n (heap g (Suc n + i)) = min_n (heap s r) \<and>
          size_n (heap g (Suc n + i)) = size_n (heap s r) \<and>
          (8 < count_n (heap s r) \<longrightarrow>
             (\<exists>os. octants (heap g n) = Some os \<and> length os = 8 \<and> os ! i = r \<and>
                   (\<forall>j<8. j \<noteq> i \<longrightarrow> os ! j = Suc n + j))) \<and>
          (count_n (heap s r) \<le> 8 \<longrightarrow> octants (heap g n) = None))"
proof -
  let ?d = "growDirection (heap s (root s)) (bb v)"
  have i: "octantIndex ?d < 8" by (rule octantIndex_less)
  have geo: "octantMin (growMin (heap s (root s)) ?d) (size_n (heap s (root s))) (octantIndex ?d) = min_n (heap s (root s))"
    by (cases "min_n (heap s (root s))") (simp add: octantMin_def growMin_def octantIndex_def)
  show ?thesis
  proof (cases "8 < count_n (heap s (root s))")
    case True
    show ?thesis
      using assms(2) i geo True
      by (simp add: grow_split[OF True assms(2)] Let_def newRootNode_def octantNode_def grownOctants_def)
  next
    case False
    then have le: "count_n (heap s (root s)) \<le> 8" by simp
    show ?thesis
      using assms(2) i geo le
      by (simp add: grow_merge[OF assms(1) le assms(2)] Let_def newRootNode_def octantNode_def)
  qed
qed

theorem grow_old_root_slot_witness:
  "0 < count_n (heap shrinkExample (root shrinkExample)) \<and> root shrinkExample < nextAddr shrinkExample \<and>
   octantIndex (growDirection (heap shrinkExample 0) (farBox 10)) = 5 \<and>
   root (grow farBox 10 shrinkExample) = 17 \<and>
   parent (heap (grow farBox 10 shrinkExample) 0) = Some 17 \<and>
   size_n (heap (grow farBox 10 shrinkExample) 17) = 2 \<and>
   min_n (heap (grow farBox 10 shrinkExample) 23) = Vec3 0 0 0 \<and>
   size_n (heap (grow farBox 10 shrinkExample) 23) = 1 \<and>
   (\<exists>os. octants (heap (grow farBox 10 shrinkExample) 17) = Some os \<and> os ! 5 = 0 \<and> os ! 6 = 24)"
proof -
  let ?g = "grow farBox 10 shrinkExample"
  have c: "0 < count_n (heap shrinkExample (root shrinkExample))"
    and r: "root shrinkExample < nextAddr shrinkExample"
    by (simp_all add: shrinkExample_def shrinkRoot_def)
  have d: "growDirection (heap shrinkExample 0) (farBox 10) = Some (Vec3 (- 3) 2 (- 3))"
    by (simp add: growDirection_def outsideCorners_def corner_def containsPoint_def farBox_def
        shrinkExample_def shrinkRoot_def Let_def octantIndices_def)
  have i: "octantIndex (growDirection (heap shrinkExample 0) (farBox 10)) = 5"
    unfolding d by (simp add: octantIndex_def negative_def)
  have n: "nextAddr shrinkExample = 17" "root shrinkExample = 0"
    "min_n (heap shrinkExample 0) = Vec3 0 0 0" "size_n (heap shrinkExample 0) = 1"
    "count_n (heap shrinkExample 0) = 9"
    by (simp_all add: shrinkExample_def shrinkRoot_def)
  note T = grow_old_root_slot[OF c r, of farBox 10, unfolded Let_def n i]
  from T have g: "root ?g = 17" by simp
  from T have "parent (heap ?g 0) = Some 17" "size_n (heap ?g 17) = 2"
    "min_n (heap ?g 23) = Vec3 0 0 0" "size_n (heap ?g 23) = 1"
    "\<exists>os. octants (heap ?g 17) = Some os \<and> os ! 5 = 0 \<and> os ! 6 = 24"
    unfolding g by auto
  with c r i g show ?thesis by simp
qed

section \<open>A rejected insert\<close>


lemma grow_facts:
  assumes "root s < nextAddr s"
  shows "root (grow bb v s) = nextAddr s"
    and "nextAddr s < nextAddr (grow bb v s)"
    and "set (objects (heap (grow bb v s) (nextAddr s))) \<subseteq> set (objects (heap s (root s)))"
    and "objectToNode (grow bb v s) x =
          (if 0 < count_n (heap s (root s)) \<and> count_n (heap s (root s)) \<le> 8 \<and> x \<in> set (objects (heap s (root s)))
           then Some (nextAddr s) else objectToNode s x)"
    and "depth (heap (grow bb v s) (nextAddr s)) = depth (heap s (root s)) - 1"
    and "size_n (heap (grow bb v s) (nextAddr s)) = size_n (heap s (root s)) * 2"
    and "count_n (heap (grow bb v s) (nextAddr s)) = (if 0 < count_n (heap s (root s)) then count_n (heap s (root s)) else 0)"
    and "count_n (heap s (root s)) \<le> 0 \<Longrightarrow> octants (heap (grow bb v s) (nextAddr s)) = None \<and> objects (heap (grow bb v s) (nextAddr s)) = []"
proof -
  consider (e) "count_n (heap s (root s)) \<le> 0"
    | (m) "0 < count_n (heap s (root s))" "count_n (heap s (root s)) \<le> 8"
    | (g) "8 < count_n (heap s (root s))" by linarith
  then have "root (grow bb v s) = nextAddr s \<and> nextAddr s < nextAddr (grow bb v s) \<and>
    set (objects (heap (grow bb v s) (nextAddr s))) \<subseteq> set (objects (heap s (root s))) \<and>
    objectToNode (grow bb v s) x =
          (if 0 < count_n (heap s (root s)) \<and> count_n (heap s (root s)) \<le> 8 \<and> x \<in> set (objects (heap s (root s)))
           then Some (nextAddr s) else objectToNode s x) \<and>
    depth (heap (grow bb v s) (nextAddr s)) = depth (heap s (root s)) - 1 \<and>
    size_n (heap (grow bb v s) (nextAddr s)) = size_n (heap s (root s)) * 2 \<and>
    count_n (heap (grow bb v s) (nextAddr s)) = (if 0 < count_n (heap s (root s)) then count_n (heap s (root s)) else 0) \<and>
    (count_n (heap s (root s)) \<le> 0 \<longrightarrow> octants (heap (grow bb v s) (nextAddr s)) = None \<and> objects (heap (grow bb v s) (nextAddr s)) = [])"
  proof cases
    case e
    then show ?thesis by (simp add: grow_empty[OF e assms] newRootNode_def)
  next
    case m
    then show ?thesis by (simp add: grow_merge[OF m assms] Let_def newRootNode_def)
  next
    case g
    then show ?thesis by (simp add: grow_split[OF g assms] Let_def newRootNode_def)
  qed
  then show "root (grow bb v s) = nextAddr s"
    and "nextAddr s < nextAddr (grow bb v s)"
    and "set (objects (heap (grow bb v s) (nextAddr s))) \<subseteq> set (objects (heap s (root s)))"
    and "objectToNode (grow bb v s) x =
          (if 0 < count_n (heap s (root s)) \<and> count_n (heap s (root s)) \<le> 8 \<and> x \<in> set (objects (heap s (root s)))
           then Some (nextAddr s) else objectToNode s x)"
    and "depth (heap (grow bb v s) (nextAddr s)) = depth (heap s (root s)) - 1"
    and "size_n (heap (grow bb v s) (nextAddr s)) = size_n (heap s (root s)) * 2"
    and "count_n (heap (grow bb v s) (nextAddr s)) = (if 0 < count_n (heap s (root s)) then count_n (heap s (root s)) else 0)"
    and "count_n (heap s (root s)) \<le> 0 \<Longrightarrow> octants (heap (grow bb v s) (nextAddr s)) = None \<and> objects (heap (grow bb v s) (nextAddr s)) = []"
    by blast+
qed

lemma growLoop_rejected:
  assumes "growLoop k bb v s = Ok (True, s')" and "root s < nextAddr s"
    and "objectToNode s v = None" and "v \<notin> set (objects (heap s (root s)))"
  shows "objectToNode s' v = None \<and> dom (objectToNode s) \<subseteq> dom (objectToNode s') \<and>
         depth (heap s' (root s')) = MIN_DEPTH \<and> \<not> fits bb v s' \<and>
         (depth (heap s (root s)) = MIN_DEPTH \<longrightarrow> s' = s)"
  using assms
proof (induction k arbitrary: s)
  case 0
  then show ?case by simp
next
  case (Suc k)
  show ?case
  proof (cases "fits bb v s")
    case True
    with Suc.prems(1) show ?thesis by (simp add: fits_def)
  next
    case nf: False
    show ?thesis
    proof (cases "depth (heap s (root s)) = MIN_DEPTH")
      case True
      with nf Suc.prems show ?thesis by (auto simp: fits_def)
    next
      case False
      with nf Suc.prems(1) have g: "growLoop k bb v (grow bb v s) = Ok (True, s')"
        by (auto simp: fits_def)
      note gf = grow_facts[OF Suc.prems(2), of bb v]
      have 1: "root (grow bb v s) < nextAddr (grow bb v s)" using gf(1,2) by simp
      have 2: "objectToNode (grow bb v s) v = None" using gf(4)[of v] Suc.prems(3,4) by simp
      have 3: "v \<notin> set (objects (heap (grow bb v s) (root (grow bb v s))))"
        using gf(1,3) Suc.prems(4) by auto
      have 4: "dom (objectToNode s) \<subseteq> dom (objectToNode (grow bb v s))"
        using gf(4) by (auto simp: dom_def)
      from Suc.IH[OF g 1 2 3] 4 False show ?thesis by auto
    qed
  qed
qed

lemma Octree_insert_warned:
  "Octree_insert k bb v s = Ok (True, s') \<longleftrightarrow> objectToNode s v = None \<and> growLoop k bb v s = Ok (True, s')"
  by (auto simp: Octree_insert_def bnd_Ok_iff Let_def split: option.splits if_splits)

lemma grow_min:
  assumes "root s < nextAddr s"
  shows "min_n (heap (grow bb v s) (nextAddr s)) = growMin (heap s (root s)) (growDirection (heap s (root s)) (bb v))"
proof -
  consider (e) "count_n (heap s (root s)) \<le> 0"
    | (m) "0 < count_n (heap s (root s))" "count_n (heap s (root s)) \<le> 8"
    | (g) "8 < count_n (heap s (root s))" by linarith
  then show ?thesis
  proof cases
    case e
    then show ?thesis by (simp add: grow_empty[OF e assms] newRootNode_def)
  next
    case m
    then show ?thesis by (simp add: grow_merge[OF m assms] Let_def newRootNode_def)
  next
    case g
    then show ?thesis by (simp add: grow_split[OF g assms] Let_def newRootNode_def)
  qed
qed

lemma fits_grow:
  assumes f: "fits bb v s" and r: "root s < nextAddr s"
  shows "fits bb v (grow bb v s)"
proof -
  note gf = grow_facts[OF r, of bb v]
  let ?r = "heap s (root s)" and ?d = "growDirection (heap s (root s)) (bb v)"
  have pos: "0 < size_n ?r"
    using f by (simp add: fits_def containsCenter_def containsPoint_def)
  have g: "size_n (heap (grow bb v s) (root (grow bb v s))) = size_n ?r * 2"
    "min_n (heap (grow bb v s) (root (grow bb v s))) = growMin ?r ?d"
    using gf(1,6) grow_min[OF r, of bb v] by simp_all
  have l: "largerThan bb (heap (grow bb v s) (root (grow bb v s))) v"
    using f pos unfolding fits_def largerThan_def g Let_def by auto
  have c: "containsCenter bb (heap (grow bb v s) (root (grow bb v s))) v"
    using f pos unfolding fits_def containsCenter_def containsPoint_def g
    by (auto simp: growMin_def)
  from l c show ?thesis by (simp add: fits_def)
qed

lemma fits_funpow:
  "fits bb v s \<Longrightarrow> root s < nextAddr s \<Longrightarrow>
   fits bb v ((grow bb v ^^ j) s) \<and> root ((grow bb v ^^ j) s) < nextAddr ((grow bb v ^^ j) s)"
proof (induction j)
  case 0
  then show ?case by simp
next
  case (Suc j)
  then have f: "fits bb v ((grow bb v ^^ j) s)"
    and r: "root ((grow bb v ^^ j) s) < nextAddr ((grow bb v ^^ j) s)" by simp_all
  from fits_grow[OF f r] grow_facts(1,2)[OF r, of bb v] show ?case by simp
qed

lemma growLoop_total:
  assumes "MIN_DEPTH \<le> depth (heap s (root s))" and "root s < nextAddr s"
    and "nat (depth (heap s (root s)) - MIN_DEPTH) = D"
    and "\<not> fits bb v ((grow bb v ^^ D) s)" and "D < k"
  shows "growLoop k bb v s = Ok (True, (grow bb v ^^ D) s)"
  using assms
proof (induction D arbitrary: s k)
  case 0
  then obtain k' where k: "k = Suc k'" by (cases k) auto
  from 0 have "depth (heap s (root s)) = MIN_DEPTH" by simp
  with 0(4) show ?case unfolding k by (auto simp: fits_def)
next
  case (Suc D)
  then obtain k' where k: "k = Suc k'" by (cases k) auto
  from Suc.prems(3) have ne: "depth (heap s (root s)) \<noteq> MIN_DEPTH" by auto
  have nf: "\<not> fits bb v s"
    using fits_funpow[OF _ Suc.prems(2), of bb v "Suc D"] Suc.prems(4) by blast
  note gf = grow_facts[OF Suc.prems(2), of bb v]
  have "growLoop k' bb v (grow bb v s) = Ok (True, (grow bb v ^^ D) (grow bb v s))"
  proof (rule Suc.IH)
    show "MIN_DEPTH \<le> depth (heap (grow bb v s) (root (grow bb v s)))"
      using gf(1,5) Suc.prems(1,3) by simp
    show "root (grow bb v s) < nextAddr (grow bb v s)" using gf(1,2) by simp
    show "nat (depth (heap (grow bb v s) (root (grow bb v s))) - MIN_DEPTH) = D"
      using gf(1,5) Suc.prems(3) by simp
    show "\<not> fits bb v ((grow bb v ^^ D) (grow bb v s))"
      using Suc.prems(4) by (simp add: funpow_swap1)
    show "D < k'" using Suc.prems(5) k by simp
  qed
  with nf ne show ?case unfolding k by (auto simp: fits_def funpow_swap1)
qed

text \<open>
  C2, as the code has it.  Take an untracked object that does not fit the root even
  after the root has been grown down to \<open>MIN_DEPTH\<close> (growth never makes a fitting
  object unfit, so it fits at no earlier stage either).  Then \<^verbatim>\<open>insert\<close>, given one
  loop iteration per level plus one, returns normally with the warning; the tree it
  leaves is the old one grown down to \<open>MIN_DEPTH\<close>; the object is still untracked and
  every object tracked before is still tracked.  The tree is unchanged only when the
  root was at \<open>MIN_DEPTH\<close> already when the call began.  The store is assumed to hold
  the root (\<open>root s < nextAddr s\<close>), and the object is not in the root's set.
\<close>

theorem insert_unfittable_warns:
  assumes "objectToNode s v = None" and "v \<notin> set (objects (heap s (root s)))"
    and "root s < nextAddr s" and "MIN_DEPTH \<le> depth (heap s (root s))"
    and "\<not> fits bb v ((grow bb v ^^ nat (depth (heap s (root s)) - MIN_DEPTH)) s)"
    and "nat (depth (heap s (root s)) - MIN_DEPTH) < k"
  shows "\<exists>s'. Octree_insert k bb v s = Ok (True, s') \<and>
           s' = (grow bb v ^^ nat (depth (heap s (root s)) - MIN_DEPTH)) s \<and>
           objectToNode s' v = None \<and> dom (objectToNode s) \<subseteq> dom (objectToNode s') \<and>
           depth (heap s' (root s')) = MIN_DEPTH \<and>
           (depth (heap s (root s)) = MIN_DEPTH \<longrightarrow> s' = s)"
proof -
  let ?s' = "(grow bb v ^^ nat (depth (heap s (root s)) - MIN_DEPTH)) s"
  have g: "growLoop k bb v s = Ok (True, ?s')"
    using assms(4,3) refl assms(5,6) by (rule growLoop_total)
  then have "Octree_insert k bb v s = Ok (True, ?s')"
    using assms(1) by (simp add: Octree_insert_warned)
  with growLoop_rejected[OF g assms(3,1,2)] show ?thesis by simp
qed

lemma deepTree_rejects:
  "Octree_insert 2 deepBoxes 2 deepTree = Ok (True, grow deepBoxes 2 deepTree)"
proof -
  let ?g = "grow deepBoxes 2 deepTree"
  have lt: "root deepTree < nextAddr deepTree" by (simp add: deepTree_def)
  note gf = grow_facts[OF lt, of deepBoxes 2]
  have 1: "\<not> largerThan deepBoxes (heap deepTree (root deepTree)) 2"
    by (simp add: deepTree_def deepBoxes_def largerThan_def)
  have 2: "depth (heap deepTree (root deepTree)) \<noteq> MIN_DEPTH"
    by (simp add: deepTree_def MIN_DEPTH_def)
  have 3: "\<not> largerThan deepBoxes (heap ?g (root ?g)) 2"
    using gf(1,6) by (simp add: deepTree_def deepBoxes_def largerThan_def)
  have 4: "depth (heap ?g (root ?g)) = MIN_DEPTH"
    using gf(1,5) by (simp add: deepTree_def MIN_DEPTH_def)
  have "growLoop (Suc (Suc 0)) deepBoxes 2 deepTree = Ok (True, ?g)"
    using 1 2 3 4 by simp
  moreover have "objectToNode deepTree 2 = None" by (simp add: deepTree_def)
  ultimately show ?thesis
    by (simp add: Octree_insert_def numeral_2_eq_2 bnd_def)
qed

text \<open>
  C2 as stated fails.  \<open>deepTree\<close> is the tree after inserting object 1, a cube of edge
  \<open>2^30\<close> at the origin, into a new octree: a single root of size \<open>2^31\<close> at depth -31.
  Object 2 is \<open>2^32\<close> wide and can never fit.  \<^verbatim>\<open>insert\<close> warns, but only after one
  \<^verbatim>\<open>grow\<close>: the root is another node, at depth -32, and object 1 now belongs to it.
\<close>

theorem insert_rejected_after_growth:
  "objectToNode deepTree 2 = None \<and> root deepTree = 0 \<and>
   (case Octree_insert 2 deepBoxes 2 deepTree of
      Ok (w, s') \<Rightarrow> w \<and> root s' = 1 \<and> depth (heap s' (root s')) = MIN_DEPTH \<and> objectToNode s' 1 = Some 1
    | _ \<Rightarrow> False)"
proof -
  have lt: "root deepTree < nextAddr deepTree" by (simp add: deepTree_def)
  note gf = grow_facts[OF lt, of deepBoxes 2]
  show ?thesis
    unfolding deepTree_rejects
    using gf(1,5) gf(4)[of 1] by (simp add: deepTree_def MIN_DEPTH_def)
qed

theorem insert_unfittable_warns_witness:
  "objectToNode deepTree 2 = None \<and> 2 \<notin> set (objects (heap deepTree (root deepTree))) \<and>
   root deepTree < nextAddr deepTree \<and> MIN_DEPTH \<le> depth (heap deepTree (root deepTree)) \<and>
   nat (depth (heap deepTree (root deepTree)) - MIN_DEPTH) = 1 \<and>
   \<not> fits deepBoxes 2 (grow deepBoxes 2 deepTree) \<and>
   Octree_insert 2 deepBoxes 2 deepTree = Ok (True, grow deepBoxes 2 deepTree) \<and>
   objectToNode (grow deepBoxes 2 deepTree) 2 = None \<and>
   depth (heap (grow deepBoxes 2 deepTree) (root (grow deepBoxes 2 deepTree))) = MIN_DEPTH"
proof -
  let ?g = "grow deepBoxes 2 deepTree"
  have h1: "objectToNode deepTree 2 = None" by (simp add: deepTree_def)
  have h2: "2 \<notin> set (objects (heap deepTree (root deepTree)))" by (simp add: deepTree_def)
  have h3: "root deepTree < nextAddr deepTree" by (simp add: deepTree_def)
  have h4: "MIN_DEPTH \<le> depth (heap deepTree (root deepTree))" by (simp add: deepTree_def MIN_DEPTH_def)
  have D: "nat (depth (heap deepTree (root deepTree)) - MIN_DEPTH) = 1"
    by (simp add: deepTree_def MIN_DEPTH_def)
  note gf = grow_facts[OF h3, of deepBoxes 2]
  have nf: "\<not> fits deepBoxes 2 ?g"
    using gf(1,6) by (simp add: fits_def deepTree_def deepBoxes_def largerThan_def)
  have h5: "\<not> fits deepBoxes 2 ((grow deepBoxes 2 ^^ nat (depth (heap deepTree (root deepTree)) - MIN_DEPTH)) deepTree)"
    unfolding D using nf by simp
  have h6: "nat (depth (heap deepTree (root deepTree)) - MIN_DEPTH) < 2" unfolding D by simp
  from insert_unfittable_warns[OF h1 h2 h3 h4 h5 h6]
  have "Octree_insert 2 deepBoxes 2 deepTree = Ok (True, ?g) \<and> objectToNode ?g 2 = None \<and>
        depth (heap ?g (root ?g)) = MIN_DEPTH"
    unfolding D by simp
  with h1 h2 h3 h4 D nf show ?thesis by simp
qed

section \<open>What insert and split never change\<close>


lemma split_Suc:
  "split (Suc k) bb a s =
     (if length (objects (heap s a)) \<le> 8 \<or> depth (heap s a) = MAX_DEPTH then Ok s
      else bnd (foldR (distribute k bb a) (objects (heap (createOctants a s) a)) (createOctants a s))
             (foldR (splitOctant k bb a) octantIndices))"
  unfolding distribute_def[abs_def] moveToOctant_def[abs_def] splitOctant_def[abs_def]
  by (simp add: Let_def)

lemma nodeInsert_Suc:
  "nodeInsert (Suc k) bb v a s =
     (let s1 = upd a (\<lambda>n. n\<lparr>count_n := count_n n + 1\<rparr>) s in
      case octants (heap s1 a) of
        Some os \<Rightarrow>
          (if largerThan bb (heap s1 (os ! 0)) v then
             (case find (\<lambda>i. containsCenter bb (heap s1 (os ! i)) v) octantIndices of
                Some i \<Rightarrow> nodeInsert k bb v (os ! i) s1
              | None \<Rightarrow> Ok (addObject v a s1))
           else Ok (addObject v a s1))
      | None \<Rightarrow> split k bb a (addObject v a s1))"
  by simp

declare nodeInsert.simps(2) [simp del] split.simps(2) [simp del]

lemma find_SomeD: "find P xs = Some x \<Longrightarrow> P x \<and> x \<in> set xs"
  by (induction xs) (auto split: if_splits)

lemma nodeInsert_Suc_cases:
  assumes "nodeInsert (Suc k) bb v a s = Ok s'"
  obtains (descend) os i where "octants (heap s a) = Some os" "i < 8"
      "largerThan bb (heap (upd a (\<lambda>n. n\<lparr>count_n := count_n n + 1\<rparr>) s) (os ! 0)) v"
      "containsCenter bb (heap (upd a (\<lambda>n. n\<lparr>count_n := count_n n + 1\<rparr>) s) (os ! i)) v"
      "nodeInsert k bb v (os ! i) (upd a (\<lambda>n. n\<lparr>count_n := count_n n + 1\<rparr>) s) = Ok s'"
  | (here) os where "octants (heap s a) = Some os"
      "s' = addObject v a (upd a (\<lambda>n. n\<lparr>count_n := count_n n + 1\<rparr>) s)"
  | (leaf) "octants (heap s a) = None"
      "split k bb a (addObject v a (upd a (\<lambda>n. n\<lparr>count_n := count_n n + 1\<rparr>) s)) = Ok s'"
proof -
  let ?s1 = "upd a (\<lambda>n. n\<lparr>count_n := count_n n + 1\<rparr>) s"
  have o: "octants (heap ?s1 a) = octants (heap s a)" by simp
  show thesis
  proof (cases "octants (heap s a)")
    case None
    with assms o have "split k bb a (addObject v a ?s1) = Ok s'"
      by (simp add: nodeInsert_Suc Let_def del: upd_simps)
    with None leaf show thesis by blast
  next
    case (Some os)
    show thesis
    proof (cases "largerThan bb (heap ?s1 (os ! 0)) v")
      case False
      with assms o Some have "s' = addObject v a ?s1"
        by (simp add: nodeInsert_Suc Let_def del: upd_simps)
      with Some here show thesis by blast
    next
      case lt: True
      show thesis
      proof (cases "find (\<lambda>i. containsCenter bb (heap ?s1 (os ! i)) v) octantIndices")
        case None
        with assms o Some lt have "s' = addObject v a ?s1"
          by (simp add: nodeInsert_Suc Let_def del: upd_simps)
        with Some here show thesis by blast
      next
        case (Some i)
        with assms o \<open>octants (heap s a) = Some os\<close> lt
        have r: "nodeInsert k bb v (os ! i) ?s1 = Ok s'"
          by (simp add: nodeInsert_Suc Let_def del: upd_simps)
        from find_SomeD[OF Some] have "i < 8" "containsCenter bb (heap ?s1 (os ! i)) v"
          by simp_all
        with r lt \<open>octants (heap s a) = Some os\<close> descend show thesis by simp
      qed
    qed
  qed
qed

lemma foldR_rel:
  assumes "foldR f vs s = Ok s'"
    and "\<And>v t t'. v \<in> set vs \<Longrightarrow> f v t = Ok t' \<Longrightarrow> R t t'"
    and "\<And>t. R t t" and "\<And>t t' t''. R t t' \<Longrightarrow> R t' t'' \<Longrightarrow> R t t''"
  shows "R s s'"
  using assms(1,2)
proof (induction vs arbitrary: s)
  case Nil
  then show ?case using assms(3) by simp
next
  case (Cons v vs)
  from Cons.prems(1) obtain t where t: "f v s = Ok t" and r: "foldR f vs t = Ok s'"
    by (auto simp: bnd_Ok_iff)
  have "R s t" by (rule Cons.prems(2)[OF _ t]) simp
  moreover have "R t s'" by (rule Cons.IH[OF r]) (rule Cons.prems(2), simp_all)
  ultimately show ?case using assms(4) by blast
qed

lemma extends_refl: "extends s s"
  by (simp add: extends_def)

lemma extends_trans:
  assumes "extends s t" and "extends t u"
  shows "extends s u"
proof -
  have "dom (objectToNode s) \<subseteq> dom (objectToNode u)"
    using assms unfolding extends_def by (meson order_trans)
  moreover have "min_n (heap u b) = min_n (heap s b) \<and> size_n (heap u b) = size_n (heap s b)"
    if "b < nextAddr s" for b
  proof -
    from that assms(1) have "b < nextAddr t" by (simp add: extends_def)
    with assms that show ?thesis by (simp add: extends_def)
  qed
  ultimately show ?thesis using assms by (simp add: extends_def)
qed

lemma extends_upd:
  "(\<And>n. min_n (f n) = min_n n \<and> size_n (f n) = size_n n) \<Longrightarrow> extends s (upd a f s)"
  by (simp add: extends_def)

lemma extends_addObject: "extends s (addObject v a s)"
  by (auto simp: extends_def)

lemma extends_createOctants: "extends s (createOctants a s)"
  by (simp add: extends_def createOctants_geometry)

lemma nodeInsert_split_extends:
  "(\<forall>v a s s'. nodeInsert k bb v a s = Ok s' \<longrightarrow> extends s s' \<and> v \<in> dom (objectToNode s')) \<and>
   (\<forall>a s s'. split k bb a s = Ok s' \<longrightarrow> extends s s')"
proof (induction k)
  case 0
  then show ?case by simp
next
  case (Suc k)
  have ins: "\<And>v a s s'. nodeInsert k bb v a s = Ok s' \<Longrightarrow> extends s s' \<and> v \<in> dom (objectToNode s')"
    and spl: "\<And>a s s'. split k bb a s = Ok s' \<Longrightarrow> extends s s'"
    using Suc.IH by blast+
  have A: "extends s s' \<and> v \<in> dom (objectToNode s')" if h: "nodeInsert (Suc k) bb v a s = Ok s'" for v a s s'
  proof -
    let ?s1 = "upd a (\<lambda>n. n\<lparr>count_n := count_n n + 1\<rparr>) s"
    have e1: "extends s ?s1" by (rule extends_upd) simp
    have e2: "extends ?s1 (addObject v a ?s1)" by (rule extends_addObject)
    have d2: "v \<in> dom (objectToNode (addObject v a ?s1))" by simp
    from h show ?thesis
    proof (cases rule: nodeInsert_Suc_cases)
      case (descend os i)
      from ins[OF descend(5)] e1 show ?thesis by (blast intro: extends_trans)
    next
      case (here os)
      with e1 e2 d2 show ?thesis by (blast intro: extends_trans)
    next
      case leaf
      from spl[OF leaf(2)] have e3: "extends (addObject v a ?s1) s'" .
      with e1 e2 have "extends s s'" by (blast intro: extends_trans)
      moreover from e3 d2 have "v \<in> dom (objectToNode s')" by (auto simp: extends_def)
      ultimately show ?thesis by simp
    qed
  qed
  have B: "extends s s'" if h: "split (Suc k) bb a s = Ok s'" for a s s'
  proof (cases "length (objects (heap s a)) \<le> 8 \<or> depth (heap s a) = MAX_DEPTH")
    case True
    with h show ?thesis by (simp add: split_Suc extends_refl)
  next
    case False
    let ?s1 = "createOctants a s"
    from h False obtain s5 where
      f1: "foldR (distribute k bb a) (objects (heap ?s1 a)) ?s1 = Ok s5"
      and f2: "foldR (splitOctant k bb a) octantIndices s5 = Ok s'"
      by (auto simp: split_Suc bnd_Ok_iff)
    have inner: "extends t t'" if "moveToOctant k bb a v j t = Ok t'" for v j t t'
    proof (cases "containsCenter bb (heap t (the (octants (heap t a)) ! j)) v")
      case True
      with that obtain s4 where i: "nodeInsert k bb v (the (octants (heap t a)) ! j) t = Ok s4"
        and t': "t' = upd a (\<lambda>n. n\<lparr>objects := set_delete v (objects n)\<rparr>) s4"
        by (auto simp: moveToOctant_def bnd_Ok_iff)
      have "extends s4 t'" unfolding t' by (rule extends_upd) simp
      with ins[OF i] show ?thesis by (blast intro: extends_trans)
    next
      case False
      with that show ?thesis by (simp add: moveToOctant_def extends_refl)
    qed
    have outer: "extends t t'" if o: "distribute k bb a v t = Ok t'" for v t t'
    proof (cases "largerThan bb (heap t (the (octants (heap t a)) ! 0)) v")
      case True
      with o have "foldR (moveToOctant k bb a v) octantIndices t = Ok t'" by (simp add: distribute_def)
      then show ?thesis
        by (rule foldR_rel) (use inner extends_refl extends_trans in blast)+
    next
      case False
      with o show ?thesis by (simp add: distribute_def extends_refl)
    qed
    have "extends ?s1 s5"
      using f1 by (rule foldR_rel) (use outer extends_refl extends_trans in blast)+
    moreover have "extends s5 s'"
      using f2 by (rule foldR_rel) (use spl extends_refl extends_trans in \<open>auto simp: splitOctant_def\<close>)
    ultimately show ?thesis
      using extends_createOctants[of s a] by (blast intro: extends_trans)
  qed
  from A B show ?case by blast
qed


lemma growLoop_exit:
  "growLoop k bb v s = Ok (w, s') \<Longrightarrow> 
     (w \<longrightarrow> depth (heap s' (root s')) = MIN_DEPTH \<and> \<not> fits bb v s') \<and> (\<not> w \<longrightarrow> fits bb v s')"
proof (induction k arbitrary: s)
  case 0
  then show ?case by simp
next
  case (Suc k)
  then show ?case
    by (auto simp: fits_def split: if_splits)
qed


section \<open>Inserting twice\<close>



section \<open>Growing towards an object outside the root\<close>


lemma boxOutside_center: "boxOutside n (bb v) \<Longrightarrow> \<not> containsCenter bb n v"
  by (auto simp: boxOutside_def containsCenter_def containsPoint_def center_def field_simps)

lemma grow_freshIfEmpty: "root s < nextAddr s \<Longrightarrow> freshIfEmpty (grow bb v s)"
  using grow_facts(1,2,7,8)[of s bb v]
  by (auto simp: freshIfEmpty_def split: if_splits)

lemma growLoop_freshIfEmpty:
  "growLoop k bb v s = Ok (w, s1) \<Longrightarrow> freshIfEmpty s \<Longrightarrow> freshIfEmpty s1"
proof (induction k arbitrary: s)
  case 0
  then show ?case by simp
next
  case (Suc k)
  show ?case
  proof (cases "growLoop k bb v (grow bb v s) = Ok (w, s1)")
    case True
    from Suc.prems(2) have "freshIfEmpty (grow bb v s)"
      by (intro grow_freshIfEmpty) (simp add: freshIfEmpty_def)
    from Suc.IH[OF True this] show ?thesis .
  next
    case False
    with Suc.prems(1) have "s1 = s" by (auto split: if_splits)
    with Suc.prems(2) show ?thesis by simp
  qed
qed

lemma growLoop_grows:
  assumes "growLoop k bb v s = Ok (w, s1)" and "\<not> fits bb v s" and "root s < nextAddr s"
  shows "freshIfEmpty s1 \<or> w"
proof (cases k)
  case 0
  with assms show ?thesis by simp
next
  case (Suc k')
  show ?thesis
  proof (cases "depth (heap s (root s)) = MIN_DEPTH")
    case True
    with assms Suc show ?thesis by (auto simp: fits_def)
  next
    case False
    with assms Suc have "growLoop k' bb v (grow bb v s) = Ok (w, s1)"
      by (auto simp: fits_def)
    from growLoop_freshIfEmpty[OF this grow_freshIfEmpty[OF assms(3)]] show ?thesis by simp
  qed
qed

lemma shrink_nonempty_root:
  "objects (heap s (root s)) \<noteq> [] \<Longrightarrow> shrink k s = Ok s' \<Longrightarrow> s' = s"
  by (cases k) (auto simp: Let_def)

lemma nodeInsert_empty_leaf:
  assumes "nodeInsert k bb v a s = Ok s'" and "octants (heap s a) = None" and "objects (heap s a) = []"
  shows "s' = addObject v a (upd a (\<lambda>n. n\<lparr>count_n := count_n n + 1\<rparr>) s)"
proof -
  let ?t = "addObject v a (upd a (\<lambda>n. n\<lparr>count_n := count_n n + 1\<rparr>) s)"
  from assms(1) obtain k' where k: "k = Suc k'" by (cases k) auto
  from assms(1)[unfolded k] assms(2) have sp: "split k' bb a ?t = Ok s'"
    by (cases rule: nodeInsert_Suc_cases) simp_all
  then obtain k'' where k': "k' = Suc k''" by (cases k') auto
  have "length (objects (heap ?t a)) \<le> 8" using assms(3) by (simp add: set_add_def)
  with sp show ?thesis unfolding k' by (simp add: split_Suc)
qed

text \<open>
  C6, as the code has it.  For an object that is not tracked and whose bounding box lies
  entirely outside the root's cube, if \<^verbatim>\<open>insert\<close> returns without the warning, then the
  new root contains the centre of the box (half-open test) and is strictly larger than
  the box on all three axes.  The store is assumed to hold the root.
\<close>

theorem insert_outside_root_fits:
  assumes "Octree_insert k bb v s = Ok (False, s')"
    and "objectToNode s v = None" and "root s < nextAddr s"
    and "boxOutside (heap s (root s)) (bb v)"
  shows "containsCenter bb (heap s' (root s')) v \<and> largerThan bb (heap s' (root s')) v"
proof -
  from assms(1,2) obtain s1 s2 where g: "growLoop k bb v s = Ok (False, s1)"
    and i: "nodeInsert k bb v (root s1) s1 = Ok s2"
    and sh: "if count_n (heap s1 (root s1)) = 0 then shrink k s2 = Ok s' else s' = s2"
    by (auto simp: Octree_insert_def bnd_Ok_iff Let_def split: if_splits)
  from assms(4) have nf: "\<not> fits bb v s" by (simp add: fits_def boxOutside_center)
  from growLoop_grows[OF g nf assms(3)] have fr: "freshIfEmpty s1" by simp
  from growLoop_exit[OF g] have f1: "fits bb v s1" by simp
  from i have ex: "extends s1 s2" using nodeInsert_split_extends by blast
  from fr have lt: "root s1 < nextAddr s1" by (simp add: freshIfEmpty_def)
  from ex lt f1 have f2: "fits bb v s2"
    by (simp add: extends_def fits_def largerThan_def containsCenter_def containsPoint_def)
  have "s' = s2"
  proof (cases "count_n (heap s1 (root s1)) = 0")
    case False
    with sh show ?thesis by simp
  next
    case True
    with fr have e: "octants (heap s1 (root s1)) = None" "objects (heap s1 (root s1)) = []"
      by (simp_all add: freshIfEmpty_def)
    from nodeInsert_empty_leaf[OF i e] e(2) have "objects (heap s2 (root s2)) \<noteq> []"
      by (simp add: set_add_def)
    with sh True show ?thesis by (auto dest: shrink_nonempty_root)
  qed
  with f2 show ?thesis by (simp add: fits_def)
qed

lemma threeObjects_root: "heap threeObjects (root threeObjects) = 
   \<lparr>parent = None, min_n = Vec3 0 0 0, size_n = 1, octants = None, objects = [3, 1, 2], count_n = 3, depth = 0\<rparr>"
  by code_simp

lemma threeObjects_tracked: "objectToNode threeObjects 3 = Some 0"
  by code_simp

text \<open>
  C6 as stated fails for an object that is already tracked: \<^verbatim>\<open>insert\<close> returns at once.
  Object 3 is in the root of \<open>threeObjects\<close>; with its box moved to \<open>[2,3]^3\<close>, outside
  the unit root, \<^verbatim>\<open>insert\<close> succeeds and the root still does not contain the centre.
\<close>

theorem insert_tracked_outside_root:
  "objectToNode threeObjects 3 = Some 0 \<and>
   boxOutside (heap threeObjects (root threeObjects)) (nearBox 3) \<and>
   (case Octree_insert 2 nearBox 3 threeObjects of
      Ok (w, s') \<Rightarrow> \<not> w \<and> \<not> containsCenter nearBox (heap s' (root s')) 3
    | _ \<Rightarrow> False)"
proof -
  have e: "Octree_insert 2 nearBox 3 threeObjects = Ok (False, threeObjects)"
    by (simp only: Octree_insert_def threeObjects_tracked option.case)
  show ?thesis
    unfolding e
    by (simp add: threeObjects_tracked threeObjects_root boxOutside_def nearBox_def
      containsCenter_def containsPoint_def center_def)
qed

theorem insert_outside_root_fits_witness:
  "objectToNode Octree_new 1 = None \<and> root Octree_new < nextAddr Octree_new \<and>
   boxOutside (heap Octree_new (root Octree_new)) (nearBox 1) \<and>
   (case Octree_insert 3 nearBox 1 Octree_new of
      Ok (w, s') \<Rightarrow> \<not> w \<and> containsCenter nearBox (heap s' (root s')) 1 \<and> largerThan nearBox (heap s' (root s')) 1
    | _ \<Rightarrow> False)"
proof -
  have "case Octree_insert 3 nearBox 1 Octree_new of Ok (w, s') \<Rightarrow> \<not> w | _ \<Rightarrow> False"
    by code_simp
  then obtain s' where eq: "Octree_insert 3 nearBox 1 Octree_new = Ok (False, s')"
    by (auto split: result.splits)
  have h1: "objectToNode Octree_new 1 = None" by (simp add: Octree_new_def)
  have h2: "root Octree_new < nextAddr Octree_new" by (simp add: Octree_new_def)
  have h3: "boxOutside (heap Octree_new (root Octree_new)) (nearBox 1)"
    by (simp add: Octree_new_def boxOutside_def nearBox_def blankNode_def DEFAULT_ROOT_NODE_SIZE_def)
  from insert_outside_root_fits[OF eq h1 h2 h3] h1 h2 h3 show ?thesis
    unfolding eq by simp
qed

section \<open>Shrinking\<close>


lemma sizesHalved_cong:
  "(\<And>b. octants (h' b) = octants (h b) \<and> size_n (h' b) = size_n (h b)) \<Longrightarrow>
   sizesHalved n h' a = sizesHalved n h a"
  by (induction n arbitrary: a) (simp_all split: option.splits)

lemma onlyNonEmpty_mem:
  "onlyNonEmpty h cs acc = Some (Some c) \<Longrightarrow> c \<in> set cs \<or> acc = Some c"
  by (induction cs arbitrary: acc) (auto split: if_splits option.splits)

lemma shrink_Suc_cases:
  assumes "shrink (Suc k) s = Ok s'"
  obtains (stop) "s' = s"
  | (reset) "\<not> size_n (heap s (root s)) < DEFAULT_ROOT_NODE_SIZE" "objects (heap s (root s)) = []"
      "count_n (heap s (root s)) = 0"
      "s' = upd (root s) (\<lambda>n. n\<lparr>min_n := Vec3 0 0 0, size_n := DEFAULT_ROOT_NODE_SIZE, depth := 0\<rparr>) s"
  | (promote) os c where "\<not> size_n (heap s (root s)) < DEFAULT_ROOT_NODE_SIZE" "objects (heap s (root s)) = []"
      "count_n (heap s (root s)) \<noteq> 0" "octants (heap s (root s)) = Some os"
      "onlyNonEmpty (heap s) (map (\<lambda>i. os ! i) octantIndices) None = Some (Some c)"
      "shrink k (upd c (\<lambda>n. n\<lparr>parent := None\<rparr>) (s\<lparr>root := c\<rparr>)) = Ok s'"
proof -
  let ?r = "heap s (root s)"
  show thesis
  proof (cases "size_n ?r < DEFAULT_ROOT_NODE_SIZE \<or> length (objects ?r) > 0")
    case True
    with assms have "s' = s" by (simp add: Let_def)
    then show thesis by (rule stop)
  next
    case f1: False
    show thesis
    proof (cases "count_n ?r = 0")
      case True
      with f1 assms show thesis by (intro reset) (auto simp: Let_def)
    next
      case f2: False
      show thesis
      proof (cases "octants ?r")
        case None
        with f1 f2 assms have "s' = s" by (simp add: Let_def)
        then show thesis by (rule stop)
      next
        case (Some os)
        show thesis
        proof (cases "onlyNonEmpty (heap s) (map (\<lambda>i. os ! i) octantIndices) None")
          case None
          with f1 f2 Some assms have "s' = s" by (simp add: Let_def)
          then show thesis by (rule stop)
        next
          case oo: (Some oc)
          show thesis
          proof (cases oc)
            case None
            with f1 f2 Some oo assms show thesis by (simp add: Let_def)
          next
            case c: (Some c)
            with f1 f2 Some oo assms
            have "shrink k (upd c (\<lambda>n. n\<lparr>parent := None\<rparr>) (s\<lparr>root := c\<rparr>)) = Ok s'"
              by (simp add: Let_def)
            with f1 f2 Some oo c show thesis by (intro promote) auto
          qed
        qed
      qed
    qed
  qed
qed

lemma shrink_size_bound:
  "shrink k s = Ok s' \<Longrightarrow> sizesHalved n (heap s) (root s) \<Longrightarrow>
   DEFAULT_ROOT_NODE_SIZE / 2 \<le> size_n (heap s (root s)) \<Longrightarrow>
   DEFAULT_ROOT_NODE_SIZE / 2 \<le> size_n (heap s' (root s'))"
proof (induction k arbitrary: s n)
  case 0
  then show ?case by simp
next
  case (Suc k)
  from Suc.prems(1) show ?case
  proof (cases rule: shrink_Suc_cases)
    case stop
    with Suc.prems show ?thesis by simp
  next
    case reset
    then show ?thesis by (simp add: DEFAULT_ROOT_NODE_SIZE_def)
  next
    case (promote os c)
    let ?t = "upd c (\<lambda>n. n\<lparr>parent := None\<rparr>) (s\<lparr>root := c\<rparr>)"
    from onlyNonEmpty_mem[OF promote(5)] obtain i where i: "i < 8" "c = os ! i" by auto
    from Suc.prems(2) promote(4) obtain n' where n: "n = Suc n'" by (cases n) auto
    from Suc.prems(2)[unfolded n] promote(4) i
    have c: "size_n (heap s c) = size_n (heap s (root s)) / 2" "sizesHalved n' (heap s) c"
      by (auto simp: list_all_iff)
    have "sizesHalved n' (heap ?t) c = sizesHalved n' (heap s) c"
      by (rule sizesHalved_cong) simp
    then have "sizesHalved n' (heap ?t) (root ?t) = sizesHalved n' (heap s) c"
      by simp
    with c have h: "sizesHalved n' (heap ?t) (root ?t)" by simp
    have "DEFAULT_ROOT_NODE_SIZE / 2 \<le> size_n (heap ?t (root ?t))"
      using c(1) promote(1) by simp
    from Suc.IH[OF promote(6) h this] show ?thesis .
  qed
qed

text \<open>
  C7, as the code has it.  \<^verbatim>\<open>shrink\<close> changes nothing when the root's size is strictly
  below the default size or the root's own set is non-empty.  Where every octant has
  half the size of its parent, a root of at least half the default size has at least
  half the default size after \<^verbatim>\<open>shrink\<close> returns.
\<close>

theorem shrink_stops_below_default:
  "(size_n (heap s (root s)) < DEFAULT_ROOT_NODE_SIZE \<or> objects (heap s (root s)) \<noteq> []
      \<longrightarrow> shrink (Suc k) s = Ok s) \<and>
   (shrink k s = Ok s' \<and> sizesHalved n (heap s) (root s) \<and>
      DEFAULT_ROOT_NODE_SIZE / 2 \<le> size_n (heap s (root s))
      \<longrightarrow> DEFAULT_ROOT_NODE_SIZE / 2 \<le> size_n (heap s' (root s')))"
  using shrink_size_bound[of k s s' n] by (auto simp: Let_def)

lemma shrinkExample_shrinks:
  "shrink 2 shrinkExample = Ok (upd 1 (\<lambda>n. n\<lparr>parent := None\<rparr>) (shrinkExample\<lparr>root := 1\<rparr>))"
proof -
  have os: "map (\<lambda>i. octantAddrs 1 ! i) octantIndices = [1, 2, 3, 4, 5, 6, 7, 8]"
    by (simp add: octantAddrs_def octantIndices_def)
  have "onlyNonEmpty (heap shrinkExample) [1, 2, 3, 4, 5, 6, 7, 8] None = Some (Some 1)"
    by (simp add: shrinkExample_def shrinkChild_def shrinkRoot_def octantNode_def)
  then show ?thesis
    using os
    by (simp add: numeral_2_eq_2 Let_def shrinkExample_def shrinkRoot_def shrinkChild_def
        octantNode_def DEFAULT_ROOT_NODE_SIZE_def)
qed

text \<open>
  C7 as stated fails at the default size itself: the test is \<^verbatim>\<open>size < DEFAULT_ROOT_NODE_SIZE\<close>.
  \<open>shrinkExample\<close> is a root of size 1 whose nine objects all sit in octant 0 (they
  fit an octant of size 1/2 but none of size 1/4): \<^verbatim>\<open>shrink\<close> promotes that octant and
  the root then has size 1/2.
\<close>

theorem shrink_at_default_size:
  "size_n (heap shrinkExample (root shrinkExample)) \<le> DEFAULT_ROOT_NODE_SIZE \<and>
   (case shrink 2 shrinkExample of
      Ok s' \<Rightarrow> root s' \<noteq> root shrinkExample \<and> size_n (heap s' (root s')) = 1 / 2 \<and>
               size_n (heap s' (root s')) < DEFAULT_ROOT_NODE_SIZE
    | _ \<Rightarrow> False)"
  unfolding shrinkExample_shrinks
  by (simp add: shrinkExample_def shrinkRoot_def shrinkChild_def octantNode_def DEFAULT_ROOT_NODE_SIZE_def)

theorem shrink_stops_below_default_witness:
  "objects (heap threeObjects (root threeObjects)) \<noteq> [] \<and> shrink (Suc 0) threeObjects = Ok threeObjects \<and>
   sizesHalved 2 (heap shrinkExample) (root shrinkExample) \<and>
   DEFAULT_ROOT_NODE_SIZE / 2 \<le> size_n (heap shrinkExample (root shrinkExample)) \<and>
   (case shrink 2 shrinkExample of
      Ok s' \<Rightarrow> DEFAULT_ROOT_NODE_SIZE / 2 \<le> size_n (heap s' (root s'))
    | _ \<Rightarrow> False)"
proof -
  have h1: "objects (heap threeObjects (root threeObjects)) \<noteq> []"
    by (simp add: threeObjects_root)
  have h2: "sizesHalved 2 (heap shrinkExample) (root shrinkExample)"
    by (simp add: numeral_2_eq_2 shrinkExample_def shrinkRoot_def shrinkChild_def octantNode_def
        octantAddrs_def octantIndices_def)
  have h3: "DEFAULT_ROOT_NODE_SIZE / 2 \<le> size_n (heap shrinkExample (root shrinkExample))"
    by (simp add: shrinkExample_def shrinkRoot_def DEFAULT_ROOT_NODE_SIZE_def)
  from shrink_stops_below_default[where s = threeObjects and k = 0] h1
  have c1: "shrink (Suc 0) threeObjects = Ok threeObjects" by blast
  from shrink_stops_below_default[where s = shrinkExample and k = 2 and n = 2] shrinkExample_shrinks h2 h3
  have c2: "DEFAULT_ROOT_NODE_SIZE / 2 \<le>
      size_n (heap (upd 1 (\<lambda>n. n\<lparr>parent := None\<rparr>) (shrinkExample\<lparr>root := 1\<rparr>))
        (root (upd 1 (\<lambda>n. n\<lparr>parent := None\<rparr>) (shrinkExample\<lparr>root := 1\<rparr>))))"
    by blast
  from h1 h2 h3 c1 c2 show ?thesis
    unfolding shrinkExample_shrinks by simp
qed

section \<open>The invariant: reachability and single nodes\<close>

lemma reach_leaf: "octants (h a) = None \<Longrightarrow> reach h a = {a}"
proof -
  assume l: "octants (h a) = None"
  have "b = a" if "b \<in> reach h a" for b
    using that by (induction rule: reach.induct) (use l in auto)
  then show ?thesis by (auto intro: reach_self)
qed

lemma reach_trans: "b \<in> reach h a \<Longrightarrow> c \<in> reach h b \<Longrightarrow> c \<in> reach h a"
proof -
  assume ba: "b \<in> reach h a"
  assume "c \<in> reach h b"
  then show "c \<in> reach h a"
    by (induction rule: reach.induct) (use ba in \<open>auto intro: reach_octant\<close>)
qed

lemma reach_child: "octants (h a) = Some os \<Longrightarrow> c \<in> set os \<Longrightarrow> b \<in> reach h c \<Longrightarrow> b \<in> reach h a"
  by (meson reach_octant reach_self reach_trans)

lemma reach_inner:
  assumes "octants (h a) = Some os"
  shows "reach h a = insert a (\<Union>c \<in> set os. reach h c)"
proof -
  have "b = a \<or> (\<exists>c \<in> set os. b \<in> reach h c)" if "b \<in> reach h a" for b
    using that
  proof (induction rule: reach.induct)
    case reach_self
    then show ?case by simp
  next
    case (reach_octant p os' c)
    from reach_octant(4) show ?case
    proof
      assume "p = a"
      with reach_octant assms show ?thesis by (auto intro: reach.reach_self)
    next
      assume "\<exists>c \<in> set os. p \<in> reach h c"
      then obtain c0 where "c0 \<in> set os" "p \<in> reach h c0" by blast
      with reach_octant show ?thesis by (auto intro: reach.reach_octant)
    qed
  qed
  then show ?thesis
    using assms by (auto intro: reach_self reach_child)
qed

text \<open>Reachability only reads the octants of reachable nodes.\<close>

lemma reach_cong_sub:
  assumes "\<And>b. b \<in> reach h a \<Longrightarrow> octants (h' b) = octants (h b)"
  shows "reach h' a \<subseteq> reach h a"
proof
  fix b assume "b \<in> reach h' a"
  then show "b \<in> reach h a"
  proof (induction rule: reach.induct)
    case reach_self
    then show ?case by (rule reach.reach_self)
  next
    case (reach_octant p os c)
    from assms[OF reach_octant(4)] reach_octant(2) have "octants (h p) = Some os" by simp
    from reach.reach_octant[OF reach_octant(4) this reach_octant(3)] show ?case .
  qed
qed

lemma reach_cong:
  assumes "\<And>b. b \<in> reach h a \<Longrightarrow> octants (h' b) = octants (h b)"
  shows "reach h' a = reach h a"
proof
  show "reach h' a \<subseteq> reach h a" using assms by (rule reach_cong_sub)
  show "reach h a \<subseteq> reach h' a"
  proof
    fix b assume "b \<in> reach h a"
    then show "b \<in> reach h' a"
    proof (induction rule: reach.induct)
      case reach_self
      then show ?case by (rule reach.reach_self)
    next
      case (reach_octant p os c)
      from assms[OF reach_octant(1)] reach_octant(2) have "octants (h' p) = Some os" by simp
      from reach.reach_octant[OF reach_octant(4) this reach_octant(3)] show ?case .
    qed
  qed
qed

lemma treeOk_sub: "treeOk X s a \<Longrightarrow> b \<in> reach (heap s) a \<Longrightarrow> treeOk X s b"
  by (auto simp: treeOk_def intro: reach_trans)

lemma treeOk_node: "treeOk X s a \<Longrightarrow> nodeInv 0 True X s a"
  by (simp add: treeOk_def reach_self)

lemma depth_reach:
  assumes "treeOk X s a" and "b \<in> reach (heap s) a"
  shows "b = a \<or> depth (heap s a) < depth (heap s b)"
  using assms(2)
proof (induction rule: reach.induct)
  case reach_self
  then show ?case by simp
next
  case (reach_octant p os c)
  from assms(1) reach_octant(1) have "nodeInv 0 True X s p" by (simp add: treeOk_def)
  with reach_octant(2,3) have "depth (heap s c) = depth (heap s p) + 1"
    by (simp add: nodeInv_def)
  with reach_octant(4) show ?case by auto
qed

lemma child_not_above:
  assumes "treeOk X s a" and "octants (heap s a) = Some os" and "c \<in> set os"
  shows "a \<notin> reach (heap s) c"
proof
  assume "a \<in> reach (heap s) c"
  have c: "c \<in> reach (heap s) a" using assms(2,3) by (auto intro: reach_octant reach_self)
  have "treeOk X s c" using assms(1) c by (rule treeOk_sub)
  moreover have "depth (heap s c) = depth (heap s a) + 1"
    using treeOk_node[OF assms(1)] assms(2,3) by (simp add: nodeInv_def)
  ultimately show False
    using depth_reach[OF _ \<open>a \<in> reach (heap s) c\<close>] by auto
qed

lemma reach_parent:
  assumes "treeOk X s a" and "b \<in> reach (heap s) a"
  shows "b = a \<or> (\<exists>p \<in> reach (heap s) a. parent (heap s b) = Some p)"
  using assms(2)
proof (induction rule: reach.induct)
  case reach_self
  then show ?case by simp
next
  case (reach_octant p os c)
  from assms(1) reach_octant(1) have "nodeInv 0 True X s p" by (simp add: treeOk_def)
  with reach_octant(2,3) have "parent (heap s c) = Some p"
    by (simp add: nodeInv_def)
  with reach_octant(1) show ?case by blast
qed

lemma siblings_disjoint:
  assumes ok: "treeOk X s a" and os: "octants (heap s a) = Some os"
    and c1: "c1 \<in> set os" and c2: "c2 \<in> set os" and ne: "c1 \<noteq> c2"
    and b: "b \<in> reach (heap s) c1"
  shows "b \<notin> reach (heap s) c2"
proof -
  have r1: "c1 \<in> reach (heap s) a" and r2: "c2 \<in> reach (heap s) a"
    using os c1 c2 by (auto intro: reach_octant reach_self)
  have ok1: "treeOk X s c1" and ok2: "treeOk X s c2"
    using ok r1 r2 by (auto intro: treeOk_sub)
  have na: "nodeInv 0 True X s a" using ok by (rule treeOk_node)
  have d: "depth (heap s c1) = depth (heap s c2)" and p2: "parent (heap s c2) = Some a"
    using na os c1 c2 by (simp_all add: nodeInv_def)
  from b show ?thesis
  proof (induction rule: reach.induct)
    case reach_self
    show ?case
    proof
      assume "c1 \<in> reach (heap s) c2"
      from depth_reach[OF ok2 this] ne d show False by simp
    qed
  next
    case (reach_octant p os' c)
    have "nodeInv 0 True X s p" using ok1 reach_octant(1) by (simp add: treeOk_def)
    with reach_octant(2,3) have pc: "parent (heap s c) = Some p" by (simp add: nodeInv_def)
    show ?case
    proof
      assume "c \<in> reach (heap s) c2"
      from reach_parent[OF ok2 this] show False
      proof
        assume "c = c2"
        with pc p2 have "p = a" by simp
        with reach_octant(1) child_not_above[OF ok os c1] show False by simp
      next
        assume "\<exists>q \<in> reach (heap s) c2. parent (heap s c) = Some q"
        with pc reach_octant(4) show False by auto
      qed
    qed
  qed
qed

lemma nodeInv_transfer:
  assumes "nodeInv d st X s b"
    and "heap s' b = heap s b"
    and "nextAddr s \<le> nextAddr s'"
    and "\<And>x. x \<notin> X \<Longrightarrow> (objectToNode s' x = Some b) = (objectToNode s x = Some b)"
    and "\<And>os c. octants (heap s b) = Some os \<Longrightarrow> c \<in> set os \<Longrightarrow>
           parent (heap s' c) = parent (heap s c) \<and> depth (heap s' c) = depth (heap s c) \<and>
           count_n (heap s' c) = count_n (heap s c)"
  shows "nodeInv d st X s' b"
proof (cases "octants (heap s b)")
  case None
  with assms(1-4) show ?thesis by (simp add: nodeInv_def)
next
  case (Some os)
  have "sum_list (map (\<lambda>c. count_n (heap s' c)) os) = sum_list (map (\<lambda>c. count_n (heap s c)) os)"
    by (intro arg_cong[where f = sum_list] map_cong refl) (simp add: assms(5)[OF Some])
  moreover have "\<forall>c \<in> set os. parent (heap s' c) = parent (heap s c) \<and> depth (heap s' c) = depth (heap s c)"
    using assms(5)[OF Some] by simp
  ultimately show ?thesis
    using assms(1-4) Some by (simp add: nodeInv_def)
qed

lemma treeOk_transfer:
  assumes ok: "treeOk X s a"
    and h: "\<And>b. b \<in> reach (heap s) a \<Longrightarrow> heap s' b = heap s b"
    and n: "nextAddr s \<le> nextAddr s'"
    and o: "\<And>x b. x \<notin> X \<Longrightarrow> b \<in> reach (heap s) a \<Longrightarrow>
              (objectToNode s' x = Some b) = (objectToNode s x = Some b)"
  shows "treeOk X s' a" and "reach (heap s') a = reach (heap s) a"
proof -
  show r: "reach (heap s') a = reach (heap s) a"
    by (rule reach_cong) (simp add: h)
  show "treeOk X s' a"
    unfolding treeOk_def r
  proof
    fix b assume b: "b \<in> reach (heap s) a"
    with ok have "nodeInv 0 True X s b" by (simp add: treeOk_def)
    then show "nodeInv 0 True X s' b"
    proof (rule nodeInv_transfer)
      show "heap s' b = heap s b" using b by (rule h)
      show "nextAddr s \<le> nextAddr s'" by (rule n)
      show "(objectToNode s' x = Some b) = (objectToNode s x = Some b)" if "x \<notin> X" for x
        using that b by (rule o)
      show "parent (heap s' c) = parent (heap s c) \<and> depth (heap s' c) = depth (heap s c) \<and>
           count_n (heap s' c) = count_n (heap s c)"
        if "octants (heap s b) = Some os" "c \<in> set os" for os c
      proof -
        from b that have "c \<in> reach (heap s) a" by (rule reach_octant)
        then show ?thesis by (simp add: h)
      qed
    qed
  qed
qed

lemma treeOk_inner_iff:
  assumes "octants (heap t a) = Some os"
  shows "treeOk X t a \<longleftrightarrow> nodeInv 0 True X t a \<and> (\<forall>c \<in> set os. treeOk X t c)"
  unfolding treeOk_def reach_inner[where h = "heap t" and a = a, OF assms] by auto

lemma treeOk_leaf_iff:
  assumes "octants (heap t a) = None"
  shows "treeOk X t a \<longleftrightarrow> nodeInv 0 True X t a"
  unfolding treeOk_def reach_leaf[where h = "heap t" and a = a, OF assms] by auto

lemma treeOk_allocated: "treeOk X s a \<Longrightarrow> b \<in> reach (heap s) a \<Longrightarrow> b < nextAddr s"
  by (simp add: treeOk_def nodeInv_def)

lemma kid_not_above:
  assumes "treeOk X s c" and "depth (heap s c) = depth (heap s a) + 1"
  shows "a \<notin> reach (heap s) c"
  using depth_reach[OF assms(1), of a] assms(2) by auto

lemma kids_disjoint:
  assumes k: "kidsOk X s a os" and c1: "c1 \<in> set os" and c2: "c2 \<in> set os" and ne: "c1 \<noteq> c2"
    and b: "b \<in> reach (heap s) c1"
  shows "b \<notin> reach (heap s) c2"
proof -
  have ok1: "treeOk X s c1" and ok2: "treeOk X s c2"
    and d1: "depth (heap s c1) = depth (heap s a) + 1" and d2: "depth (heap s c2) = depth (heap s a) + 1"
    and p2: "parent (heap s c2) = Some a"
    using k c1 c2 by (simp_all add: kidsOk_def)
  from b show ?thesis
  proof (induction rule: reach.induct)
    case reach_self
    show ?case
    proof
      assume "c1 \<in> reach (heap s) c2"
      from depth_reach[OF ok2 this] ne d1 d2 show False by simp
    qed
  next
    case (reach_octant p os' c)
    have "nodeInv 0 True X s p" using ok1 reach_octant(1) by (simp add: treeOk_def)
    with reach_octant(2,3) have pc: "parent (heap s c) = Some p" by (simp add: nodeInv_def)
    show ?case
    proof
      assume "c \<in> reach (heap s) c2"
      from reach_parent[OF ok2 this] show False
      proof
        assume "c = c2"
        with pc p2 have "p = a" by simp
        with reach_octant(1) kid_not_above[OF ok1 d1] show False by simp
      next
        assume "\<exists>q \<in> reach (heap s) c2. parent (heap s c) = Some q"
        with pc reach_octant(4) show False by auto
      qed
    qed
  qed
qed

lemma treeOk_kidsOk:
  assumes "treeOk X s a" and "octants (heap s a) = Some os"
  shows "kidsOk X s a os"
proof -
  from assms have n: "nodeInv 0 True X s a" and c: "\<forall>c \<in> set os. treeOk X s c"
    by (simp_all add: treeOk_inner_iff)
  with assms(2) show ?thesis by (simp add: kidsOk_def nodeInv_def)
qed

lemma sum_list_counts_update:
  assumes "distinct os" and "c \<in> set os"
    and "\<And>c'. c' \<in> set os \<Longrightarrow> g c' = f c' + (if c' = c then d else 0)"
  shows "sum_list (map g os) = sum_list (map f os) + (d::int)"
  using assms
proof (induction os)
  case Nil
  then show ?case by simp
next
  case (Cons o1 os)
  show ?case
  proof (cases "o1 = c")
    case True
    with Cons.prems(1) have "c \<notin> set os" by simp
    then have "sum_list (map g os) = sum_list (map f os)"
      using Cons.prems(3) by (intro arg_cong[where f = sum_list] map_cong refl) auto
    with True Cons.prems(3)[of c] show ?thesis by simp
  next
    case False
    with Cons.prems have "sum_list (map g os) = sum_list (map f os) + d"
      by (intro Cons.IH) auto
    with False Cons.prems(3)[of o1] show ?thesis by simp
  qed
qed

lemma subtreeStepD:
  assumes "subtreeStep X V d a s s'"
  shows "treeOk X s' a" and "root s' = root s" and "nextAddr s \<le> nextAddr s'"
    and "parent (heap s' a) = parent (heap s a)" and "depth (heap s' a) = depth (heap s a)"
    and "count_n (heap s' a) = count_n (heap s a) + d"
    and "reach (heap s') a \<subseteq> reach (heap s) a \<union> {b. nextAddr s \<le> b}"
    and "\<And>b. b < nextAddr s \<Longrightarrow> b \<notin> reach (heap s) a \<Longrightarrow> heap s' b = heap s b"
    and "\<And>x b. x \<notin> V \<Longrightarrow> objectToNode s x = Some b \<Longrightarrow> b \<notin> reach (heap s) a \<Longrightarrow> b < nextAddr s
          \<Longrightarrow> objectToNode s' x = Some b"
    and "\<And>x b. x \<notin> X \<Longrightarrow> objectToNode s' x = Some b \<Longrightarrow>
          (objectToNode s x = Some b \<and> b \<notin> reach (heap s) a) \<or> b \<in> reach (heap s') a"
  using assms unfolding subtreeStep_def by blast+

lemma subtreeStepI:
  assumes "treeOk X s' a" and "root s' = root s" and "nextAddr s \<le> nextAddr s'"
    and "parent (heap s' a) = parent (heap s a)" and "depth (heap s' a) = depth (heap s a)"
    and "count_n (heap s' a) = count_n (heap s a) + d"
    and "reach (heap s') a \<subseteq> reach (heap s) a \<union> {b. nextAddr s \<le> b}"
    and "\<And>b. b < nextAddr s \<Longrightarrow> b \<notin> reach (heap s) a \<Longrightarrow> heap s' b = heap s b"
    and "\<And>x b. x \<notin> V \<Longrightarrow> objectToNode s x = Some b \<Longrightarrow> b \<notin> reach (heap s) a \<Longrightarrow> b < nextAddr s
          \<Longrightarrow> objectToNode s' x = Some b"
    and "\<And>x b. x \<notin> X \<Longrightarrow> objectToNode s' x = Some b \<Longrightarrow>
          (objectToNode s x = Some b \<and> b \<notin> reach (heap s) a) \<or> b \<in> reach (heap s') a"
  shows "subtreeStep X V d a s s'"
  using assms unfolding subtreeStep_def by blast

lemma subtreeStep_refl: "treeOk X s a \<Longrightarrow> subtreeStep X V 0 a s s"
  by (rule subtreeStepI) auto

lemma subtreeStep_trans:
  assumes 1: "subtreeStep X V d1 a s t" and 2: "subtreeStep X V d2 a t u"
  shows "subtreeStep X V (d1 + d2) a s u"
proof (rule subtreeStepI)
  note A = subtreeStepD[OF 1] and B = subtreeStepD[OF 2]
  have out: "b \<notin> reach (heap t) a \<and> b < nextAddr t" if "b < nextAddr s" "b \<notin> reach (heap s) a" for b
    using that A(7) A(3) by auto
  show "treeOk X u a" by (rule B(1))
  show "root u = root s" using A(2) B(2) by simp
  show "nextAddr s \<le> nextAddr u" using A(3) B(3) by simp
  show "parent (heap u a) = parent (heap s a)" using A(4) B(4) by simp
  show "depth (heap u a) = depth (heap s a)" using A(5) B(5) by simp
  show "count_n (heap u a) = count_n (heap s a) + (d1 + d2)" using A(6) B(6) by simp
  show "reach (heap u) a \<subseteq> reach (heap s) a \<union> {b. nextAddr s \<le> b}"
    using A(7) B(7) A(3) by auto
  show "heap u b = heap s b" if "b < nextAddr s" "b \<notin> reach (heap s) a" for b
    using out[OF that] A(8)[OF that] B(8)[of b] by simp
  show "objectToNode u x = Some b"
    if "x \<notin> V" "objectToNode s x = Some b" "b \<notin> reach (heap s) a" "b < nextAddr s" for x b
    using A(9)[OF that] out[OF that(4,3)] B(9)[OF that(1)] by simp
  show "(objectToNode s x = Some b \<and> b \<notin> reach (heap s) a) \<or> b \<in> reach (heap u) a"
    if "x \<notin> X" "objectToNode u x = Some b" for x b
    using B(10)[OF that] A(10)[OF that(1), of b] by blast
qed

section \<open>The invariant: a step below one octant\<close>

lemma kids_step:
  assumes k: "kidsOk X t a os" and c: "c \<in> set os" and st: "subtreeStep X V d c t t1"
    and V: "\<forall>x \<in> V. x \<notin> X \<longrightarrow> (\<forall>c' \<in> set os. c' \<noteq> c \<longrightarrow>
              (\<forall>b \<in> reach (heap t) c'. objectToNode t x \<noteq> Some b))"
  shows "heap t1 a = heap t a"
    and "kidsOk X t1 a os"
    and "\<And>c'. c' \<in> set os \<Longrightarrow> count_n (heap t1 c') = count_n (heap t c') + (if c' = c then d else 0)"
    and "\<And>c'. c' \<in> set os \<Longrightarrow> c' \<noteq> c \<Longrightarrow> reach (heap t1) c' = reach (heap t) c'"
    and "\<And>x. x \<notin> X \<Longrightarrow> x \<notin> V \<Longrightarrow> (objectToNode t1 x = Some a) = (objectToNode t x = Some a)"
    and "\<And>x. x \<notin> X \<Longrightarrow> objectToNode t1 x = Some a \<Longrightarrow> objectToNode t x = Some a"
    and "a \<notin> reach (heap t1) c"
proof -
  note D = subtreeStepD[OF st]
  have a_lt: "a < nextAddr t" and os: "octants (heap t a) = Some os" and len: "length os = 8"
    and dist: "distinct os"
    and kid: "\<And>c'. c' \<in> set os \<Longrightarrow> treeOk X t c' \<and> parent (heap t c') = Some a \<and>
                depth (heap t c') = depth (heap t a) + 1"
    using k by (simp_all add: kidsOk_def)
  have a_out: "a \<notin> reach (heap t) c"
    using kid[OF c] by (intro kid_not_above) auto
  show ha: "heap t1 a = heap t a" using D(8)[OF a_lt a_out] .
  show a_out1: "a \<notin> reach (heap t1) c" using D(7) a_out a_lt by auto
  have sib: "b \<notin> reach (heap t) c \<and> b < nextAddr t \<and> b \<notin> reach (heap t1) c"
    if "c' \<in> set os" "c' \<noteq> c" "b \<in> reach (heap t) c'" for c' b
  proof -
    have 1: "b \<notin> reach (heap t) c" using kids_disjoint[OF k that(1) c that(2,3)] .
    have 2: "b < nextAddr t" using kid[OF that(1)] that(3) by (auto intro: treeOk_allocated)
    from 1 2 D(7) show ?thesis by auto
  qed
  have sib_tr: "treeOk X t1 c' \<and> reach (heap t1) c' = reach (heap t) c' \<and> heap t1 c' = heap t c'"
    if c': "c' \<in> set os" "c' \<noteq> c" for c'
  proof -
    have ok: "treeOk X t c'" using kid[OF c'(1)] by simp
    have h: "heap t1 b = heap t b" if "b \<in> reach (heap t) c'" for b
      using sib[OF c' that] D(8) by simp
    have o: "(objectToNode t1 x = Some b) = (objectToNode t x = Some b)"
      if "x \<notin> X" "b \<in> reach (heap t) c'" for x b
    proof
      assume "objectToNode t1 x = Some b"
      from D(10)[OF that(1) this] sib[OF c' that(2)] show "objectToNode t x = Some b" by blast
    next
      assume e: "objectToNode t x = Some b"
      with V that(1) c' that(2) have "x \<notin> V" by blast
      from D(9)[OF this e] sib[OF c' that(2)] show "objectToNode t1 x = Some b" by simp
    qed
    from treeOk_transfer[OF ok h D(3) o] h[OF reach_self] show ?thesis by simp
  qed
  show cnt: "count_n (heap t1 c') = count_n (heap t c') + (if c' = c then d else 0)"
    if "c' \<in> set os" for c'
    using sib_tr[OF that] D(6) by (cases "c' = c") simp_all
  show "reach (heap t1) c' = reach (heap t) c'" if "c' \<in> set os" "c' \<noteq> c" for c'
    using sib_tr[OF that] by simp
  show "kidsOk X t1 a os"
    unfolding kidsOk_def
  proof (intro conjI ballI)
    show "a < nextAddr t1" using a_lt D(3) by simp
    show "octants (heap t1 a) = Some os" using ha os by simp
    show "length os = 8" by (rule len)
    show "distinct os" by (rule dist)
    fix c' assume c': "c' \<in> set os"
    show "treeOk X t1 c'" using sib_tr[OF c'] D(1) by (cases "c' = c") simp_all
    show "parent (heap t1 c') = Some a" using sib_tr[OF c'] D(4) kid[OF c'] by (cases "c' = c") simp_all
    show "depth (heap t1 c') = depth (heap t1 a) + 1"
      using sib_tr[OF c'] D(5) kid[OF c'] ha by (cases "c' = c") simp_all
  qed
  show "objectToNode t x = Some a" if "x \<notin> X" "objectToNode t1 x = Some a" for x
    using D(10)[OF that] a_out1 by blast
  then show "(objectToNode t1 x = Some a) = (objectToNode t x = Some a)" if "x \<notin> X" "x \<notin> V" for x
    using D(9)[OF that(2) _ a_out a_lt] that(1) by blast
qed

lemma nodeInv_innerI:
  assumes "octants (heap s b) = Some os"
    and "b < nextAddr s" and "distinct (objects (heap s b))" and "set (objects (heap s b)) \<inter> X = {}"
    and "\<And>x. x \<notin> X \<Longrightarrow> (objectToNode s x = Some b) = (x \<in> set (objects (heap s b)))"
    and "length os = 8" and "distinct os" and "count_n (heap s b) > 8"
    and "count_n (heap s b) - d = int (length (objects (heap s b))) + sum_list (map (\<lambda>c. count_n (heap s c)) os)"
    and "\<And>c. c \<in> set os \<Longrightarrow> parent (heap s c) = Some b \<and> depth (heap s c) = depth (heap s b) + 1"
  shows "nodeInv d st X s b"
  using assms unfolding nodeInv_def by simp

lemma nodeInv_leafI:
  assumes "octants (heap s b) = None"
    and "b < nextAddr s" and "distinct (objects (heap s b))" and "set (objects (heap s b)) \<inter> X = {}"
    and "\<And>x. x \<notin> X \<Longrightarrow> (objectToNode s x = Some b) = (x \<in> set (objects (heap s b)))"
    and "count_n (heap s b) - d = int (length (objects (heap s b)))"
    and "st \<Longrightarrow> depth (heap s b) \<noteq> MAX_DEPTH \<Longrightarrow> length (objects (heap s b)) \<le> 8"
  shows "nodeInv d st X s b"
  using assms unfolding nodeInv_def by simp

lemma nodeInvD:
  assumes "nodeInv d st X s b"
  shows "b < nextAddr s" and "distinct (objects (heap s b))" and "set (objects (heap s b)) \<inter> X = {}"
    and "\<And>x. x \<notin> X \<Longrightarrow> (objectToNode s x = Some b) = (x \<in> set (objects (heap s b)))"
  using assms unfolding nodeInv_def by blast+

lemma nodeInv_innerD:
  assumes "nodeInv d st X s b" and "octants (heap s b) = Some os"
  shows "length os = 8" and "distinct os" and "count_n (heap s b) > 8"
    and "count_n (heap s b) - d = int (length (objects (heap s b))) + sum_list (map (\<lambda>c. count_n (heap s c)) os)"
    and "\<And>c. c \<in> set os \<Longrightarrow> parent (heap s c) = Some b \<and> depth (heap s c) = depth (heap s b) + 1"
  using assms unfolding nodeInv_def by simp_all

lemma nodeInv_leafD:
  assumes "nodeInv d st X s b" and "octants (heap s b) = None"
  shows "count_n (heap s b) - d = int (length (objects (heap s b)))"
    and "st \<Longrightarrow> depth (heap s b) \<noteq> MAX_DEPTH \<Longrightarrow> length (objects (heap s b)) \<le> 8"
  using assms unfolding nodeInv_def by simp_all

lemma nodeInv_count_nonneg: "nodeInv 0 st X s b \<Longrightarrow> 0 \<le> count_n (heap s b)"
  by (cases "octants (heap s b)") (auto simp: nodeInv_def)

text \<open>
  A step inside the subtree of one octant \<open>c\<close> of \<open>a\<close>, between a change of \<open>a\<close>'s own
  count or objects before it (\<open>s\<close> to \<open>t\<close>) and after it (\<open>t1\<close> to \<open>s'\<close>), is a step of the
  subtree of \<open>a\<close>, once \<open>a\<close> itself satisfies its invariant again.
\<close>

lemma parent_step:
  assumes k: "kidsOk X t a os" and c: "c \<in> set os" and st: "subtreeStep X V d c t t1"
    and V: "\<forall>x \<in> V. x \<notin> X \<longrightarrow> (\<forall>c' \<in> set os. c' \<noteq> c \<longrightarrow>
              (\<forall>b \<in> reach (heap t) c'. objectToNode t x \<noteq> Some b))"
    and s_t: "root t = root s" "nextAddr t = nextAddr s" "objectToNode t = objectToNode s"
      "\<And>b. b \<noteq> a \<Longrightarrow> heap t b = heap s b" "octants (heap t a) = octants (heap s a)"
      "parent (heap t a) = parent (heap s a)" "depth (heap t a) = depth (heap s a)"
    and s'_t1: "root s' = root t1" "nextAddr s' = nextAddr t1" "objectToNode s' = objectToNode t1"
      "\<And>b. b \<noteq> a \<Longrightarrow> heap s' b = heap t1 b" "octants (heap s' a) = octants (heap t1 a)"
      "parent (heap s' a) = parent (heap t1 a)" "depth (heap s' a) = depth (heap t1 a)"
    and na: "nodeInv 0 True X s' a"
    and cnt: "count_n (heap s' a) = count_n (heap s a) + d'"
    and Vout: "\<And>x. x \<in> V \<Longrightarrow> x \<notin> V' \<Longrightarrow> objectToNode s x = Some a"
  shows "subtreeStep X V' d' a s s'"
proof (rule subtreeStepI)
  note D = subtreeStepD[OF st]
  note K = kids_step[OF k c st V]
  have os: "octants (heap t a) = Some os" using k by (simp add: kidsOk_def)
  have oct_ts: "octants (heap t b) = octants (heap s b)" for b
    using s_t(4,5) by (cases "b = a") simp_all
  have oct_s't1: "octants (heap s' b) = octants (heap t1 b)" for b
    using s'_t1(4,5) by (cases "b = a") simp_all
  have r_ts: "reach (heap t) b = reach (heap s) b" for b
    by (rule reach_cong) (simp add: oct_ts)
  have r_s't1: "reach (heap s') b = reach (heap t1) b" for b
    by (rule reach_cong) (simp add: oct_s't1)
  have os1: "octants (heap t1 a) = Some os" using K(2) by (simp add: kidsOk_def)
  have os': "octants (heap s' a) = Some os" using os1 s'_t1(5) by simp
  have ra: "reach (heap t) a = insert a (\<Union>c' \<in> set os. reach (heap t) c')"
    using os by (rule reach_inner)
  have ra': "reach (heap s') a = insert a (\<Union>c' \<in> set os. reach (heap t1) c')"
    using reach_inner[where h = "heap s'" and a = a, OF os'] r_s't1 by simp
  have kid1: "\<And>c'. c' \<in> set os \<Longrightarrow> treeOk X t1 c' \<and> depth (heap t1 c') = depth (heap t1 a) + 1"
    using K(2) by (simp add: kidsOk_def)
  have a_out1: "a \<notin> reach (heap t1) c'" if "c' \<in> set os" for c'
    using kid1[OF that] by (intro kid_not_above) auto
  have rc: "reach (heap t) c \<subseteq> reach (heap s) a"
    using ra c r_ts by auto
  show "treeOk X s' a"
    unfolding treeOk_inner_iff[where t = s' and a = a, OF os']
  proof (intro conjI ballI)
    show "nodeInv 0 True X s' a" by (rule na)
    fix c' assume c': "c' \<in> set os"
    have "treeOk X t1 c'" using kid1[OF c'] by simp
    then show "treeOk X s' c'"
    proof (rule treeOk_transfer(1))
      show "heap s' b = heap t1 b" if "b \<in> reach (heap t1) c'" for b
        using that a_out1[OF c'] by (intro s'_t1(4)) auto
    qed (simp_all add: s'_t1)
  qed
  show "root s' = root s" using s'_t1(1) D(2) s_t(1) by simp
  show "nextAddr s \<le> nextAddr s'" using s'_t1(2) D(3) s_t(2) by simp
  show "parent (heap s' a) = parent (heap s a)" using s'_t1(6) K(1) s_t(6) by simp
  show "depth (heap s' a) = depth (heap s a)" using s'_t1(7) K(1) s_t(7) by simp
  show "count_n (heap s' a) = count_n (heap s a) + d'" by (rule cnt)
  show "reach (heap s') a \<subseteq> reach (heap s) a \<union> {b. nextAddr s \<le> b}"
  proof
    fix b assume "b \<in> reach (heap s') a"
    then consider "b = a" | c' where "c' \<in> set os" "b \<in> reach (heap t1) c'"
      unfolding ra' by auto
    then show "b \<in> reach (heap s) a \<union> {b. nextAddr s \<le> b}"
    proof cases
      case 1
      then show ?thesis by (simp add: reach_self)
    next
      case 2
      show ?thesis
      proof (cases "c' = c")
        case True
        with 2 D(7) rc s_t(2) show ?thesis by auto
      next
        case False
        with 2 K(4) have "b \<in> reach (heap t) c'" by simp
        with 2(1) ra r_ts show ?thesis by auto
      qed
    qed
  qed
  show "heap s' b = heap s b" if "b < nextAddr s" "b \<notin> reach (heap s) a" for b
  proof -
    from that(2) have ne: "b \<noteq> a" by (auto simp: reach_self)
    from that rc have "b \<notin> reach (heap t) c" by auto
    with that(1) s_t(2) have "heap t1 b = heap t b" by (intro D(8)) simp_all
    with ne s_t(4) s'_t1(4) show ?thesis by simp
  qed
  show "objectToNode s' x = Some b"
    if "x \<notin> V'" "objectToNode s x = Some b" "b \<notin> reach (heap s) a" "b < nextAddr s" for x b
  proof -
    have "x \<notin> V"
    proof
      assume "x \<in> V"
      from Vout[OF this that(1)] that(2,3) show False by (simp add: reach_self)
    qed
    moreover from that rc have "b \<notin> reach (heap t) c" by auto
    ultimately have "objectToNode t1 x = Some b"
      using that(2,4) s_t(2,3) by (intro D(9)) simp_all
    then show ?thesis by (simp add: s'_t1(3))
  qed
  show "(objectToNode s x = Some b \<and> b \<notin> reach (heap s) a) \<or> b \<in> reach (heap s') a"
    if "x \<notin> X" "objectToNode s' x = Some b" for x b
  proof -
    from that(2) have "objectToNode t1 x = Some b" by (simp add: s'_t1(3))
    from D(10)[OF that(1) this] show ?thesis
    proof
      assume "b \<in> reach (heap t1) c"
      with c ra' show ?thesis by auto
    next
      assume e: "objectToNode t x = Some b \<and> b \<notin> reach (heap t) c"
      show ?thesis
      proof (cases "b \<in> reach (heap s) a")
        case False
        with e s_t(3) show ?thesis by simp
      next
        case True
        then consider "b = a" | c' where "c' \<in> set os" "b \<in> reach (heap t) c'"
          using ra r_ts by auto
        then show ?thesis
        proof cases
          case 1
          then show ?thesis by (simp add: reach_self)
        next
          case 2
          with e have "c' \<noteq> c" by auto
          with 2 K(4) have "b \<in> reach (heap t1) c'" by simp
          with 2(1) ra' show ?thesis by auto
        qed
      qed
    qed
  qed
qed

section \<open>The invariant: insert and split of a node\<close>

lemma subtreeStep_otnAlloc:
  assumes "subtreeStep X V d a s s'" and "otnAlloc X s"
  shows "otnAlloc X s'"
  unfolding otnAlloc_def
proof (intro allI impI)
  fix x b assume x: "x \<notin> X" and e: "objectToNode s' x = Some b"
  note D = subtreeStepD[OF assms(1)]
  from D(10)[OF x e] show "b < nextAddr s'"
  proof
    assume "objectToNode s x = Some b \<and> b \<notin> reach (heap s) a"
    with assms(2) x D(3) show ?thesis by (auto simp: otnAlloc_def)
  next
    assume "b \<in> reach (heap s') a"
    with D(1) show ?thesis by (rule treeOk_allocated)
  qed
qed

lemma nodeInv_weaken: "nodeInv d st X s b \<Longrightarrow> nodeInv d False X s b"
  unfolding nodeInv_def by (auto split: option.splits)

lemma nodeInv_strict:
  "nodeInv d False X s b \<Longrightarrow>
   (octants (heap s b) = None \<Longrightarrow> depth (heap s b) \<noteq> MAX_DEPTH \<Longrightarrow> length (objects (heap s b)) \<le> 8) \<Longrightarrow>
   nodeInv d True X s b"
  unfolding nodeInv_def by (auto split: option.splits)

lemma kidsOk_upd:
  assumes k: "kidsOk X s a os"
    and f: "\<And>n. octants (f n) = octants n \<and> depth (f n) = depth n"
  shows "kidsOk X (upd a f s) a os"
  unfolding kidsOk_def
proof (intro conjI ballI)
  have kid: "\<And>c. c \<in> set os \<Longrightarrow> treeOk X s c \<and> parent (heap s c) = Some a \<and>
                depth (heap s c) = depth (heap s a) + 1"
    and rest: "a < nextAddr s" "octants (heap s a) = Some os" "length os = 8" "distinct os"
    using k by (simp_all add: kidsOk_def)
  show "a < nextAddr (upd a f s)" "octants (heap (upd a f s) a) = Some os" "length os = 8" "distinct os"
    using rest f by simp_all
  fix c assume c: "c \<in> set os"
  have out: "a \<notin> reach (heap s) c" using kid[OF c] by (intro kid_not_above) auto
  then have ne: "c \<noteq> a" by (auto simp: reach_self)
  have "treeOk X s c" using kid[OF c] by simp
  then show "treeOk X (upd a f s) c"
  proof (rule treeOk_transfer(1))
    show "heap (upd a f s) b = heap s b" if "b \<in> reach (heap s) c" for b
      using that out by auto
  qed simp_all
  show "parent (heap (upd a f s) c) = Some a" using kid[OF c] ne by simp
  show "depth (heap (upd a f s) c) = depth (heap (upd a f s) a) + 1" using kid[OF c] ne f by simp
qed

lemma insert_step:
  assumes IHi: "insertSpec k bb X" and IHs: "splitSpec k bb X"
  shows "insertSpec (Suc k) bb X"
  unfolding insertSpec_def
proof (intro allI impI)
  fix v a s s'
  assume run: "nodeInsert (Suc k) bb v a s = Ok s'" and ok: "treeOk X s a" and al: "otnAlloc X s"
    and vX: "v \<notin> X" and vT: "\<forall>b \<in> reach (heap s) a. objectToNode s v \<noteq> Some b"
  let ?s1 = "upd a (\<lambda>n. n\<lparr>count_n := count_n n + 1\<rparr>) s"
  let ?t = "addObject v a ?s1"
  have na: "nodeInv 0 True X s a" using ok by (rule treeOk_node)
  note N = nodeInvD[OF na]
  have v_a: "objectToNode s v \<noteq> Some a" using vT by (auto simp: reach_self)
  with N(4)[OF vX] have v_obj: "v \<notin> set (objects (heap s a))" by simp
  have obj_t: "objects (heap ?t a) = objects (heap s a) @ [v]"
    using v_obj by (simp add: set_add_def)
  from run show "subtreeStep X {v} 1 a s s' \<and> (\<exists>b \<in> reach (heap s') a. objectToNode s' v = Some b)"
  proof (cases rule: nodeInsert_Suc_cases)
    case (descend os i)
    note I = nodeInv_innerD[OF na descend(1)]
    have k0: "kidsOk X s a os" using ok descend(1) by (rule treeOk_kidsOk)
    have k1: "kidsOk X ?s1 a os" using k0 by (rule kidsOk_upd) simp
    let ?c = "os ! i"
    have c: "?c \<in> set os" using I(1) descend(2) by simp
    have ok_c: "treeOk X ?s1 ?c" using k1 c by (simp add: kidsOk_def)
    have r1: "reach (heap ?s1) b = reach (heap s) b" for b
      by (rule reach_cong) simp
    have rsub: "reach (heap s) c' \<subseteq> reach (heap s) a" if "c' \<in> set os" for c'
      using reach_inner[where h = "heap s" and a = a, OF descend(1)] that by auto
    have al1: "otnAlloc X ?s1" using al by (simp add: otnAlloc_def)
    have vT1: "\<forall>b \<in> reach (heap ?s1) ?c. objectToNode ?s1 v \<noteq> Some b"
      unfolding r1 using vT rsub[OF c] by auto
    from IHi descend(5) ok_c al1 vX vT1
    have st: "subtreeStep X {v} 1 ?c ?s1 s'" and tr: "\<exists>b \<in> reach (heap s') ?c. objectToNode s' v = Some b"
      unfolding insertSpec_def by blast+
    have V: "\<forall>x \<in> {v}. x \<notin> X \<longrightarrow> (\<forall>c' \<in> set os. c' \<noteq> ?c \<longrightarrow>
              (\<forall>b \<in> reach (heap ?s1) c'. objectToNode ?s1 x \<noteq> Some b))"
      unfolding r1 using vT rsub by auto
    note K = kids_step[OF k1 c st V]
    have os': "octants (heap s' a) = Some os" using K(2) by (simp add: kidsOk_def)
    have ha: "heap s' a = (heap s a)\<lparr>count_n := count_n (heap s a) + 1\<rparr>" using K(1) by simp
    have ne: "c' \<noteq> a" if "c' \<in> set os" for c'
      using kid_not_above[of X s c' a] k0 that by (auto simp: kidsOk_def reach_self)
    have sum: "sum_list (map (\<lambda>c. count_n (heap s' c)) os) = sum_list (map (\<lambda>c. count_n (heap s c)) os) + 1"
      using I(2) c
    proof (rule sum_list_counts_update)
      fix c' assume "c' \<in> set os"
      with K(3)[OF this] ne[OF this] show "count_n (heap s' c') = count_n (heap s c') + (if c' = ?c then 1 else 0)"
        by simp
    qed
    have na': "nodeInv 0 True X s' a"
      using os'
    proof (rule nodeInv_innerI)
      show "a < nextAddr s'" using K(2) by (simp add: kidsOk_def)
      show "distinct (objects (heap s' a))" using N(2) ha by simp
      show "set (objects (heap s' a)) \<inter> X = {}" using N(3) ha by simp
      show "(objectToNode s' x = Some a) = (x \<in> set (objects (heap s' a)))" if "x \<notin> X" for x
      proof (cases "x = v")
        case True
        with K(6)[OF that] v_a v_obj ha show ?thesis by auto
      next
        case False
        with K(5)[OF that] N(4)[OF that] ha show ?thesis by simp
      qed
      show "length os = 8" "distinct os" by (rule I)+
      show "8 < count_n (heap s' a)" using I(3) ha by simp
      show "count_n (heap s' a) - 0 = int (length (objects (heap s' a))) + sum_list (map (\<lambda>c. count_n (heap s' c)) os)"
        using I(4) ha sum by simp
      show "parent (heap s' c') = Some a \<and> depth (heap s' c') = depth (heap s' a) + 1"
        if "c' \<in> set os" for c'
        using K(2) that by (simp add: kidsOk_def)
    qed
    have "subtreeStep X {v} 1 a s s'"
      using k1 c st V
    proof (rule parent_step[where s' = s' and s = s])
      show "nodeInv 0 True X s' a" by (rule na')
      show "count_n (heap s' a) = count_n (heap s a) + 1" using ha by simp
    qed simp_all
    moreover from tr have "\<exists>b \<in> reach (heap s') a. objectToNode s' v = Some b"
      using reach_inner[where h = "heap s'" and a = a, OF os'] c by auto
    ultimately show ?thesis by simp
  next
    case (here os)
    note I = nodeInv_innerD[OF na here(1)]
    have k0: "kidsOk X s a os" using ok here(1) by (rule treeOk_kidsOk)
    have kid: "\<And>c. c \<in> set os \<Longrightarrow> treeOk X s c \<and> depth (heap s c) = depth (heap s a) + 1"
      using k0 by (simp add: kidsOk_def)
    have out: "a \<notin> reach (heap s) c" if "c \<in> set os" for c
      using kid[OF that] by (intro kid_not_above) auto
    have ne: "c \<noteq> a" if "c \<in> set os" for c using out[OF that] by (auto simp: reach_self)
    have rs': "reach (heap s') b = reach (heap s) b" for b
      unfolding here(2) by (rule reach_cong) simp
    have ra: "reach (heap s) a = insert a (\<Union>c \<in> set os. reach (heap s) c)"
      using here(1) by (rule reach_inner)
    have os': "octants (heap s' a) = Some os" using here by simp
    have na': "nodeInv 0 True X s' a"
      using os'
    proof (rule nodeInv_innerI)
      show "a < nextAddr s'" using N(1) here(2) by simp
      show "distinct (objects (heap s' a))" using N(2) v_obj obj_t here(2) by simp
      show "set (objects (heap s' a)) \<inter> X = {}" using N(3) vX obj_t here(2) by simp
      show "(objectToNode s' x = Some a) = (x \<in> set (objects (heap s' a)))" if "x \<notin> X" for x
        using N(4)[OF that] obj_t here(2) by (cases "x = v") simp_all
      show "length os = 8" "distinct os" by (rule I)+
      show "8 < count_n (heap s' a)" using I(3) here(2) by simp
      have hc: "heap s' c = heap s c" if "c \<in> set os" for c
        using ne[OF that] here(2) by simp
      have sum: "sum_list (map (\<lambda>c. count_n (heap s' c)) os) = sum_list (map (\<lambda>c. count_n (heap s c)) os)"
        by (intro arg_cong[where f = sum_list] map_cong refl) (simp add: hc)
      have ha: "heap s' a = (heap s a)\<lparr>count_n := count_n (heap s a) + 1, objects := objects (heap s a) @ [v]\<rparr>"
        using obj_t here(2) by simp
      show "count_n (heap s' a) - 0 = int (length (objects (heap s' a))) + sum_list (map (\<lambda>c. count_n (heap s' c)) os)"
        using I(4) ha sum by simp
      show "parent (heap s' c') = Some a \<and> depth (heap s' c') = depth (heap s' a) + 1"
        if "c' \<in> set os" for c'
        using I(5)[OF that] ne[OF that] here(2) by simp
    qed
    have kids': "treeOk X s' c" if "c \<in> set os" for c
    proof (rule treeOk_transfer(1)[where s = s])
      show "treeOk X s c" using kid[OF that] by simp
      show "heap s' b = heap s b" if "b \<in> reach (heap s) c" for b
        using that out[OF \<open>c \<in> set os\<close>] here(2) by auto
      show "nextAddr s \<le> nextAddr s'" using here(2) by simp
      show "(objectToNode s' x = Some b) = (objectToNode s x = Some b)"
        if "x \<notin> X" "b \<in> reach (heap s) c" for x b
      proof (cases "x = v")
        case True
        from that(2) \<open>c \<in> set os\<close> ra have "b \<in> reach (heap s) a" by auto
        with vT have "objectToNode s v \<noteq> Some b" by simp
        moreover from that(2) out[OF \<open>c \<in> set os\<close>] have "b \<noteq> a" by auto
        ultimately show ?thesis using True here(2) by simp
      next
        case False
        then show ?thesis using here(2) by simp
      qed
    qed
    have otn': "objectToNode s' = (objectToNode s)(v \<mapsto> a)" using here(2) by simp
    have hb: "heap s' b = heap s b" if "b \<noteq> a" for b using that here(2) by simp
    have misc: "root s' = root s" "nextAddr s' = nextAddr s" "parent (heap s' a) = parent (heap s a)"
      "depth (heap s' a) = depth (heap s a)" "count_n (heap s' a) = count_n (heap s a) + 1"
      using here(2) by simp_all
    have "subtreeStep X {v} 1 a s s'"
    proof (rule subtreeStepI)
      show "treeOk X s' a"
        unfolding treeOk_inner_iff[where t = s' and a = a, OF os'] using na' kids' by simp
      show "reach (heap s') a \<subseteq> reach (heap s) a \<union> {b. nextAddr s \<le> b}" by (simp add: rs')
      show "(objectToNode s x = Some b \<and> b \<notin> reach (heap s) a) \<or> b \<in> reach (heap s') a"
        if "x \<notin> X" "objectToNode s' x = Some b" for x b
        using that(2) unfolding otn' rs' by (cases "x = v") (auto simp: reach_self)
      show "heap s' b = heap s b" if "b < nextAddr s" "b \<notin> reach (heap s) a" for b
        using that(2) by (intro hb) (auto simp: reach_self)
      show "objectToNode s' x = Some b"
        if "x \<notin> {v}" "objectToNode s x = Some b" for x b
        using that otn' by simp
    qed (simp_all add: misc)
    moreover have "\<exists>b \<in> reach (heap s') a. objectToNode s' v = Some b"
      using otn' by (auto simp: reach_self)
    ultimately show ?thesis by simp
  next
    case leaf
    note L = nodeInv_leafD[OF na leaf(1)]
    have rs: "reach (heap s) a = {a}" using leaf(1) by (rule reach_leaf)
    have oct_t: "octants (heap ?t a) = None" using leaf(1) by simp
    have rt: "reach (heap ?t) a = {a}" using oct_t by (rule reach_leaf)
    have nt: "nodeInv 0 False X ?t a"
      using oct_t
    proof (rule nodeInv_leafI)
      show "a < nextAddr ?t" using N(1) by simp
      show "distinct (objects (heap ?t a))" using N(2) v_obj obj_t by simp
      show "set (objects (heap ?t a)) \<inter> X = {}" using N(3) vX obj_t by simp
      show "(objectToNode ?t x = Some a) = (x \<in> set (objects (heap ?t a)))" if "x \<notin> X" for x
        using N(4)[OF that] obj_t by (cases "x = v") simp_all
      show "count_n (heap ?t a) - 0 = int (length (objects (heap ?t a)))"
        using L(1) obj_t by simp
    qed simp
    have pre: "\<forall>b \<in> reach (heap ?t) a. nodeInv 0 (b \<noteq> a) X ?t b" using nt rt by simp
    have alt: "otnAlloc X ?t" using al N(1) by (auto simp: otnAlloc_def)
    have bound: "depth (heap ?t a) \<noteq> MAX_DEPTH \<longrightarrow> count_n (heap ?t a) \<le> 9"
      using L by auto
    from IHs leaf(2) pre alt bound have st: "subtreeStep X {} 0 a ?t s'"
      unfolding splitSpec_def by blast
    note D = subtreeStepD[OF st]
    have dom: "v \<in> dom (objectToNode s')"
      using nodeInsert_split_extends[of "Suc k" bb] run by blast
    have "subtreeStep X {v} 1 a s s'"
    proof (rule subtreeStepI)
      show "treeOk X s' a" by (rule D(1))
      show "root s' = root s" using D(2) by simp
      show "nextAddr s \<le> nextAddr s'" using D(3) by simp
      show "parent (heap s' a) = parent (heap s a)" using D(4) by simp
      show "depth (heap s' a) = depth (heap s a)" using D(5) by simp
      show "count_n (heap s' a) = count_n (heap s a) + 1" using D(6) by simp
      show "reach (heap s') a \<subseteq> reach (heap s) a \<union> {b. nextAddr s \<le> b}"
        using D(7) rs rt by simp
      show "heap s' b = heap s b" if "b < nextAddr s" "b \<notin> reach (heap s) a" for b
        using D(8)[of b] that rs rt by simp
      show "objectToNode s' x = Some b"
        if "x \<notin> {v}" "objectToNode s x = Some b" "b \<notin> reach (heap s) a" "b < nextAddr s" for x b
        using D(9)[of x b] that rs rt by simp
      show "(objectToNode s x = Some b \<and> b \<notin> reach (heap s) a) \<or> b \<in> reach (heap s') a"
        if "x \<notin> X" "objectToNode s' x = Some b" for x b
        using D(10)[OF that] rs rt by (cases "x = v") auto
    qed
    moreover have "\<exists>b \<in> reach (heap s') a. objectToNode s' v = Some b"
    proof -
      from dom obtain b where b: "objectToNode s' v = Some b" by auto
      from D(10)[OF vX b] rt have "b \<in> reach (heap s') a" by auto
      with b show ?thesis by blast
    qed
    ultimately show ?thesis by simp
  qed
qed

lemma less8: "(i::nat) < 8 \<Longrightarrow> i = 0 \<or> i = 1 \<or> i = 2 \<or> i = 3 \<or> i = 4 \<or> i = 5 \<or> i = 6 \<or> i = 7"
  by arith

lemma octant_bits_differ:
  assumes "(i::nat) < 8" "(j::nat) < 8" "i \<noteq> j"
  shows "i mod 2 \<noteq> j mod 2 \<or> i div 2 mod 2 \<noteq> j div 2 mod 2 \<or> i div 4 mod 2 \<noteq> j div 4 mod 2"
  using less8[OF assms(1)] less8[OF assms(2)] assms(3)
  by (elim disjE) simp_all

lemma bit_cases: "(b::nat) mod 2 = 0 \<or> b mod 2 = 1"
  by presburger

lemma octant_cells_disjoint:
  assumes ij: "i < 8" "j < 8" "i \<noteq> j"
    and ni: "min_n ni = octantMin m h i" "size_n ni = h"
    and nj: "min_n nj = octantMin m h j" "size_n nj = h"
    and p: "containsPoint ni p"
  shows "\<not> containsPoint nj p"
proof -
  have ax: "\<not> (m0 + h * of_nat (bi mod 2) \<le> q \<and> q < m0 + h * of_nat (bi mod 2) + h \<and>
               m0 + h * of_nat (bj mod 2) \<le> q \<and> q < m0 + h * of_nat (bj mod 2) + h)"
    if "bi mod 2 \<noteq> bj mod 2" for bi bj :: nat and m0 q :: rat
    using that bit_cases[of bi] bit_cases[of bj] by auto
  from octant_bits_differ[OF ij] show ?thesis
  proof (elim disjE)
    assume "i mod 2 \<noteq> j mod 2"
    from ax[OF this, of "vx m" "vx p"] p show ?thesis
      by (auto simp: containsPoint_def ni nj octantMin_def)
  next
    assume "i div 2 mod 2 \<noteq> j div 2 mod 2"
    from ax[OF this, of "vy m" "vy p"] p show ?thesis
      by (auto simp: containsPoint_def ni nj octantMin_def)
  next
    assume "i div 4 mod 2 \<noteq> j div 4 mod 2"
    from ax[OF this, of "vz m" "vz p"] p show ?thesis
      by (auto simp: containsPoint_def ni nj octantMin_def)
  qed
qed

lemma set_octantAddrs: "set (octantAddrs n) = {c. \<exists>i<8. c = n + i}"
proof -
  have "set (octantAddrs n) = (\<lambda>i. n + i) ` {..<8}"
    by (simp add: octantAddrs_def)
  then show ?thesis by auto
qed

lemma distinct_octantAddrs [simp]: "distinct (octantAddrs n)"
  by (simp add: octantAddrs_def octantIndices_upt distinct_map inj_on_def)

lemma sum_list_int_nonneg: "(\<And>x. x \<in> set xs \<Longrightarrow> 0 \<le> f x) \<Longrightarrow> 0 \<le> (sum_list (map f xs) :: int)"
  by (induction xs) auto

lemma member_le_sum_list_int:
  "(\<And>x. x \<in> set xs \<Longrightarrow> 0 \<le> f x) \<Longrightarrow> c \<in> set xs \<Longrightarrow> f c \<le> (sum_list (map f xs) :: int)"
proof (induction xs)
  case Nil
  then show ?case by simp
next
  case (Cons x xs)
  have nn: "0 \<le> sum_list (map f xs)" using Cons.prems(1) by (intro sum_list_int_nonneg) simp
  show ?case
  proof (cases "c = x")
    case True
    with nn show ?thesis by simp
  next
    case False
    with Cons have "f c \<le> sum_list (map f xs)" by simp
    moreover have "0 \<le> f x" using Cons.prems(1) by simp
    ultimately show ?thesis by simp
  qed
qed

lemma sum_list_int_zero:
  "(\<And>x. x \<in> set xs \<Longrightarrow> 0 \<le> f x) \<Longrightarrow> (sum_list (map f xs) :: int) \<le> 0 \<Longrightarrow> c \<in> set xs \<Longrightarrow> f c = 0"
  using member_le_sum_list_int[of xs f c] by fastforce

lemma createOctants_step:
  assumes pre: "\<forall>b \<in> reach (heap s) a. nodeInv 0 (b \<noteq> a) X s b" and al: "otnAlloc X s"
    and cnt: "count_n (heap s a) \<le> 9" and big: "8 < length (objects (heap s a))"
  shows "subtreeStep X {} 0 a s (createOctants a s)"
    and "splitting X a (nextAddr s) (heap s a) (createOctants a s)"
    and "objects (heap (createOctants a s) a) = objects (heap s a)"
proof -
  let ?n = "nextAddr s" and ?A = "heap s a" and ?s1 = "createOctants a s"
  have na: "nodeInv 0 False X s a" using bspec[OF pre reach_self] by simp
  note N = nodeInvD[OF na]
  have h1a: "heap ?s1 a = ?A\<lparr>octants := Some (octantAddrs ?n)\<rparr>"
    by (simp add: createOctants_simps(4)[OF N(1)])
  have h1c: "heap ?s1 (?n + i) = octantNode a ?A i" if "i < 8" for i
    using that N(1) by (simp add: createOctants_simps(4)[OF N(1)])
  have h1o: "heap ?s1 b = heap s b" if "b < ?n" "b \<noteq> a" for b
    using that by (rule createOctants_old)
  have kidnn: "0 \<le> count_n (heap s c0)" if "octants ?A = Some os0" "c0 \<in> set os0" for os0 c0
  proof -
    from that have "c0 \<in> reach (heap s) a" by (auto intro: reach_octant reach_self)
    with pre have "nodeInv 0 (c0 \<noteq> a) X s c0" by simp
    then show ?thesis by (rule nodeInv_count_nonneg)
  qed
  have cntA: "count_n ?A = int (length (objects ?A))"
    and kid0: "\<And>os0 c0. octants ?A = Some os0 \<Longrightarrow> c0 \<in> set os0 \<Longrightarrow> count_n (heap s c0) = 0"
  proof -
    show "count_n ?A = int (length (objects ?A))"
    proof (cases "octants ?A")
      case None
      from nodeInv_leafD(1)[OF na None] show ?thesis by simp
    next
      case (Some os0)
      from nodeInv_innerD(4)[OF na Some] sum_list_int_nonneg[of os0 "\<lambda>c. count_n (heap s c)"] kidnn[OF Some]
        cnt big show ?thesis by simp
    qed
    then show "count_n (heap s c0) = 0" if "octants ?A = Some os0" "c0 \<in> set os0" for os0 c0
      using nodeInv_innerD(4)[OF na that(1)] kidnn[OF that(1)] that(2)
      by (intro sum_list_int_zero[of os0 "\<lambda>c. count_n (heap s c)"]) simp_all
  qed
  have untracked_below: False
    if x: "x \<notin> X" "objectToNode s x = Some b" and b: "b \<in> reach (heap s) a" "b \<noteq> a" for x b
  proof (cases "octants ?A")
    case None
    from reach_leaf[where h = "heap s" and a = a, OF None] b show False by simp
  next
    case (Some os0)
    from b reach_inner[where h = "heap s" and a = a, OF Some]
    obtain c0 where c0: "c0 \<in> set os0" "b \<in> reach (heap s) c0" by auto
    have c0r: "c0 \<in> reach (heap s) a" using Some c0(1) by (auto intro: reach_octant reach_self)
    have "depth (heap s c0) = depth ?A + 1" using nodeInv_innerD(5)[OF na Some c0(1)] by simp
    then have "c0 \<noteq> a" by auto
    with pre c0r have nc: "nodeInv 0 True X s c0" by auto
    have z: "count_n (heap s c0) = 0" using kid0[OF Some c0(1)] .
    have leaf: "octants (heap s c0) = None"
    proof (cases "octants (heap s c0)")
      case (Some os1)
      from nodeInv_innerD(3)[OF nc Some] z show ?thesis by simp
    qed simp
    from reach_leaf[where h = "heap s" and a = c0, OF leaf] c0(2) have "b = c0" by simp
    moreover from nodeInv_leafD(1)[OF nc leaf] z have "objects (heap s c0) = []" by simp
    ultimately show False using nodeInvD(4)[OF nc x(1)] x(2) by simp
  qed
  have os1: "octants (heap ?s1 a) = Some (octantAddrs ?n)" using h1a by simp
  have kid_leaf: "octants (heap ?s1 c) = None" if "c \<in> set (octantAddrs ?n)" for c
    using that h1c by (auto simp: set_octantAddrs octantNode_def)
  have r1: "reach (heap ?s1) a = insert a (set (octantAddrs ?n))"
    using reach_inner[where h = "heap ?s1" and a = a, OF os1]
      reach_leaf[where h = "heap ?s1", OF kid_leaf] by auto
  have na1: "nodeInv 0 True X ?s1 a"
    using os1
  proof (rule nodeInv_innerI)
    show "a < nextAddr ?s1" using N(1) by simp
    show "distinct (objects (heap ?s1 a))" using N(2) h1a by simp
    show "set (objects (heap ?s1 a)) \<inter> X = {}" using N(3) h1a by simp
    show "(objectToNode ?s1 x = Some a) = (x \<in> set (objects (heap ?s1 a)))" if "x \<notin> X" for x
      using N(4)[OF that] h1a by simp
    show "length (octantAddrs ?n) = 8" "distinct (octantAddrs ?n)" by simp_all
    show "8 < count_n (heap ?s1 a)" using cntA big h1a by simp
    have "sum_list (map (\<lambda>c. count_n (heap ?s1 c)) (octantAddrs ?n)) = sum_list (map (\<lambda>c. 0) (octantAddrs ?n))"
      by (intro arg_cong[where f = sum_list] map_cong refl) (auto simp: set_octantAddrs h1c octantNode_def)
    then show "count_n (heap ?s1 a) - 0 = int (length (objects (heap ?s1 a))) +
        sum_list (map (\<lambda>c. count_n (heap ?s1 c)) (octantAddrs ?n))"
      using cntA h1a by simp
    show "parent (heap ?s1 c) = Some a \<and> depth (heap ?s1 c) = depth (heap ?s1 a) + 1"
      if "c \<in> set (octantAddrs ?n)" for c
      using that h1c h1a by (auto simp: set_octantAddrs octantNode_def)
  qed
  have kids1: "treeOk X ?s1 c" if c: "c \<in> set (octantAddrs ?n)" for c
    unfolding treeOk_leaf_iff[where t = ?s1 and a = c, OF kid_leaf[OF c]]
    using kid_leaf[OF c]
  proof (rule nodeInv_leafI)
    from c obtain i where i: "i < 8" "c = ?n + i" by (auto simp: set_octantAddrs)
    show "c < nextAddr ?s1" using i by simp
    show "distinct (objects (heap ?s1 c))" "set (objects (heap ?s1 c)) \<inter> X = {}"
      "count_n (heap ?s1 c) - 0 = int (length (objects (heap ?s1 c)))"
      "length (objects (heap ?s1 c)) \<le> 8"
      using i h1c by (simp_all add: octantNode_def)
    show "(objectToNode ?s1 x = Some c) = (x \<in> set (objects (heap ?s1 c)))" if "x \<notin> X" for x
    proof -
      have "objectToNode s x \<noteq> Some c" using al that i by (auto simp: otnAlloc_def)
      then show ?thesis using i h1c by (simp add: octantNode_def)
    qed
  qed
  have ok1: "treeOk X ?s1 a"
    unfolding treeOk_inner_iff[where t = ?s1 and a = a, OF os1] using na1 kids1 by simp
  show "subtreeStep X {} 0 a s ?s1"
  proof (rule subtreeStepI)
    show "treeOk X ?s1 a" by (rule ok1)
    show "reach (heap ?s1) a \<subseteq> reach (heap s) a \<union> {b. ?n \<le> b}"
      unfolding r1 by (auto simp: set_octantAddrs reach_self)
    show "heap ?s1 b = heap s b" if "b < ?n" "b \<notin> reach (heap s) a" for b
      using that by (intro h1o) (auto simp: reach_self)
    show "(objectToNode s x = Some b \<and> b \<notin> reach (heap s) a) \<or> b \<in> reach (heap ?s1) a"
      if "x \<notin> X" "objectToNode ?s1 x = Some b" for x b
      using untracked_below[of x b] that unfolding r1 by auto
  qed (simp_all add: h1a)
  show "splitting X a ?n ?A ?s1"
    unfolding splitting_def
  proof (intro conjI allI impI)
    show "otnAlloc X ?s1" using al by (auto simp: otnAlloc_def)
    show "min_n (heap ?s1 (?n + i)) = octantMin (min_n ?A) (size_n ?A / 2) i" if "i < 8" for i
      using h1c[OF that] by (simp add: octantNode_def)
    show "size_n (heap ?s1 (?n + i)) = size_n ?A / 2" if "i < 8" for i
      using h1c[OF that] by (simp add: octantNode_def)
  qed (simp_all add: ok1 os1 N(1))
  show "objects (heap ?s1 a) = objects ?A" using h1a by simp
qed

lemma splitting_step:
  assumes sp: "splitting X a n A t" and st: "subtreeStep X V d a t t'" and ex: "extends t t'"
    and os: "octants (heap t' a) = Some (octantAddrs n)"
  shows "splitting X a n A t'"
proof -
  note D = subtreeStepD[OF st]
  have al: "otnAlloc X t'" using st sp by (auto intro: subtreeStep_otnAlloc simp: splitting_def)
  have geo: "min_n (heap t' (n + i)) = min_n (heap t (n + i)) \<and> size_n (heap t' (n + i)) = size_n (heap t (n + i))"
    if "i < 8" for i
  proof -
    have "n + i < nextAddr t" using that sp by (simp add: splitting_def)
    with ex show ?thesis by (simp add: extends_def)
  qed
  show ?thesis
    unfolding splitting_def
    using D(1) al os D(3) sp geo by (simp add: splitting_def)
qed

lemma length_removeAll_distinct:
  "distinct xs \<Longrightarrow> v \<in> set xs \<Longrightarrow> int (length (removeAll v xs)) = int (length xs) - 1"
  by (induction xs) auto

lemma moveToOctant_step:
  assumes IHi: "insertSpec k bb X" and sp: "splitting X a n A t"
    and v: "v \<in> set (objects (heap t a))" and j: "j < 8"
    and act: "containsCenter bb (heap t (n + j)) v"
    and run: "moveToOctant k bb a v j t = Ok t2"
  shows "subtreeStep X {} 0 a t t2" and "splitting X a n A t2"
    and "set (objects (heap t2 a)) = set (objects (heap t a)) - {v}"
proof -
  let ?os = "octantAddrs n" and ?c = "n + j"
  have ok: "treeOk X t a" and al: "otnAlloc X t" and os: "octants (heap t a) = Some ?os"
    and an: "a < n" and nn: "n + 8 \<le> nextAddr t"
    using sp by (simp_all add: splitting_def)
  from run act os j obtain t1 where run1: "nodeInsert k bb v ?c t = Ok t1"
    and t2: "t2 = upd a (\<lambda>n. n\<lparr>objects := set_delete v (objects n)\<rparr>) t1"
    by (auto simp: moveToOctant_def bnd_Ok_iff)
  have k0: "kidsOk X t a ?os" using ok os by (rule treeOk_kidsOk)
  have c: "?c \<in> set ?os" using j by (auto simp: set_octantAddrs)
  have a_kid: "a \<notin> set ?os" using an by (auto simp: set_octantAddrs)
  have na: "nodeInv 0 True X t a" using ok by (rule treeOk_node)
  note N = nodeInvD[OF na] and I = nodeInv_innerD[OF na os]
  have vX: "v \<notin> X" using N(3) v by auto
  have va: "objectToNode t v = Some a" using N(4)[OF vX] v by simp
  have okc: "treeOk X t ?c" using k0 c by (simp add: kidsOk_def)
  have a_out: "a \<notin> reach (heap t) c'" if "c' \<in> set ?os" for c'
    using ok os that by (rule child_not_above)
  have vT: "\<forall>b \<in> reach (heap t) ?c. objectToNode t v \<noteq> Some b"
    using va a_out[OF c] by auto
  from IHi[unfolded insertSpec_def, rule_format, OF run1 okc al vX vT[rule_format]]
  have st: "subtreeStep X {v} 1 ?c t t1"
    and tr: "\<exists>b \<in> reach (heap t1) ?c. objectToNode t1 v = Some b"
    by simp_all
  have V: "\<forall>x \<in> {v}. x \<notin> X \<longrightarrow> (\<forall>c' \<in> set ?os. c' \<noteq> ?c \<longrightarrow>
              (\<forall>b \<in> reach (heap t) c'. objectToNode t x \<noteq> Some b))"
    using va a_out by auto
  note K = kids_step[OF k0 c st V]
  note D = subtreeStepD[OF st]
  have h2a: "heap t2 a = (heap t a)\<lparr>objects := set_delete v (objects (heap t a))\<rparr>"
    using K(1) by (simp add: t2)
  have h2o: "heap t2 b = heap t1 b" if "b \<noteq> a" for b
    using that by (simp add: t2)
  have otn2: "objectToNode t2 = objectToNode t1" by (simp add: t2)
  have k2: "kidsOk X t2 a ?os" unfolding t2 using K(2) by (rule kidsOk_upd) simp
  have os2: "octants (heap t2 a) = Some ?os" using h2a os by simp
  have sum2: "sum_list (map (\<lambda>c. count_n (heap t2 c)) ?os) = sum_list (map (\<lambda>c. count_n (heap t c)) ?os) + 1"
  proof -
    have eqc: "count_n (heap t2 c') = count_n (heap t1 c')" if "c' \<in> set ?os" for c'
      using that a_kid h2o[of c'] by metis
    have "sum_list (map (\<lambda>c. count_n (heap t2 c)) ?os) = sum_list (map (\<lambda>c. count_n (heap t1 c)) ?os)"
      by (intro arg_cong[where f = sum_list] map_cong refl) (rule eqc)
    also have "\<dots> = sum_list (map (\<lambda>c. count_n (heap t c)) ?os) + 1"
      using I(2) c K(3) by (rule sum_list_counts_update)
    finally show ?thesis .
  qed
  have na2: "nodeInv 0 True X t2 a"
    using os2
  proof (rule nodeInv_innerI)
    show "a < nextAddr t2" using N(1) D(3) by (simp add: t2)
    show "distinct (objects (heap t2 a))" using N(2) by (simp add: h2a set_delete_def distinct_removeAll)
    show "set (objects (heap t2 a)) \<inter> X = {}" using N(3) by (auto simp: h2a set_delete_def)
    show "(objectToNode t2 x = Some a) = (x \<in> set (objects (heap t2 a)))" if x: "x \<notin> X" for x
    proof (cases "x = v")
      case True
      from tr K(7) have "objectToNode t1 v \<noteq> Some a" by auto
      with True show ?thesis by (simp add: h2a set_delete_def otn2)
    next
      case False
      then have "x \<notin> {v}" by simp
      from K(5)[OF x this] N(4)[OF x] False show ?thesis by (simp add: h2a set_delete_def otn2)
    qed
    show "length ?os = 8" "distinct ?os" by simp_all
    show "8 < count_n (heap t2 a)" using I(3) by (simp add: h2a)
    show "count_n (heap t2 a) - 0 = int (length (objects (heap t2 a))) +
        sum_list (map (\<lambda>c. count_n (heap t2 c)) ?os)"
      unfolding sum2 using I(4) length_removeAll_distinct[OF N(2) v] by (simp add: h2a set_delete_def)
    show "parent (heap t2 c') = Some a \<and> depth (heap t2 c') = depth (heap t2 a) + 1"
      if "c' \<in> set ?os" for c'
      using k2 that by (simp add: kidsOk_def)
  qed
  show st2: "subtreeStep X {} 0 a t t2"
  proof (rule parent_step[where s = t and s' = t2 and V' = "{}" and d' = 0, OF k0 c st V])
    show "nodeInv 0 True X t2 a" by (rule na2)
    show "objectToNode t x = Some a" if "x \<in> {v}" for x using that va by simp
    show "heap t2 b = heap t1 b" if "b \<noteq> a" for b using that by (rule h2o)
    show "octants (heap t2 a) = octants (heap t1 a)" "parent (heap t2 a) = parent (heap t1 a)"
      "depth (heap t2 a) = depth (heap t1 a)" "count_n (heap t2 a) = count_n (heap t a) + 0"
      using K(1) by (simp_all add: h2a)
  qed (simp_all add: t2)
  have "extends t t1" using run1 nodeInsert_split_extends by blast
  moreover have "extends t1 t2" unfolding t2 by (rule extends_upd) simp
  ultimately have "extends t t2" by (rule extends_trans)
  with sp st2 show "splitting X a n A t2" using os2 by (rule splitting_step)
  show "set (objects (heap t2 a)) = set (objects (heap t a)) - {v}"
    by (auto simp: h2a set_delete_def)
qed

lemma foldR_id: "(\<And>j. j \<in> set js \<Longrightarrow> f j u = Ok u) \<Longrightarrow> foldR f js u = Ok u"
  by (induction js) (simp_all add: bnd_def)

lemma foldR_one:
  assumes "foldR f js t = Ok t'" and "distinct js"
    and "\<And>j u. j \<in> set js \<Longrightarrow> \<not> act j u \<Longrightarrow> f j u = Ok u"
    and "\<And>j j' u'. j \<in> set js \<Longrightarrow> j' \<in> set js \<Longrightarrow> j' \<noteq> j \<Longrightarrow> act j t \<Longrightarrow> f j t = Ok u' \<Longrightarrow> \<not> act j' u'"
  shows "t' = t \<or> (\<exists>j \<in> set js. act j t \<and> f j t = Ok t')"
  using assms
proof (induction js)
  case Nil
  then show ?case by simp
next
  case (Cons j js)
  show ?case
  proof (cases "act j t")
    case False
    with Cons.prems(3)[of j t] have "f j t = Ok t" by simp
    with Cons.prems(1) have run: "foldR f js t = Ok t'" by (simp add: bnd_def)
    have "t' = t \<or> (\<exists>j \<in> set js. act j t \<and> f j t = Ok t')"
      using run
    proof (rule Cons.IH)
      show "distinct js" using Cons.prems(2) by simp
      show "f i u = Ok u" if "i \<in> set js" "\<not> act i u" for i u
        using that Cons.prems(3)[of i u] by simp
      show "\<not> act j' u'" if "i \<in> set js" "j' \<in> set js" "j' \<noteq> i" "act i t" "f i t = Ok u'" for i j' u'
        using that Cons.prems(4)[of i j' u'] by simp
    qed
    then show ?thesis by auto
  next
    case True
    from Cons.prems(1) obtain u' where u': "f j t = Ok u'" and rest: "foldR f js u' = Ok t'"
      by (auto simp: bnd_Ok_iff)
    have "f j' u' = Ok u'" if "j' \<in> set js" for j'
    proof -
      from that Cons.prems(2) have "j' \<noteq> j" by auto
      from Cons.prems(4)[of j j' u', OF _ _ this True u'] that have "\<not> act j' u'" by simp
      with Cons.prems(3)[of j' u'] that show ?thesis by simp
    qed
    then have "foldR f js u' = Ok u'" by (rule foldR_id)
    with rest have "t' = u'" by simp
    with True u' show ?thesis by simp
  qed
qed

lemma distribute_step:
  assumes IHi: "insertSpec k bb X" and sp: "splitting X a n A t"
    and v: "v \<in> set (objects (heap t a))"
    and run: "distribute k bb a v t = Ok t2"
  shows "subtreeStep X {} 0 a t t2 \<and> splitting X a n A t2 \<and>
         set (objects (heap t a)) - {v} \<subseteq> set (objects (heap t2 a))"
proof -
  have ok: "treeOk X t a" and os: "octants (heap t a) = Some (octantAddrs n)"
    and geo: "\<And>i. i < 8 \<Longrightarrow> min_n (heap t (n + i)) = octantMin (min_n A) (size_n A / 2) i \<and>
             size_n (heap t (n + i)) = size_n A / 2"
    using sp by (simp_all add: splitting_def)
  have same: ?thesis if "t2 = t"
    using that sp subtreeStep_refl[OF ok] by auto
  show ?thesis
  proof (cases "largerThan bb (heap t (the (octants (heap t a)) ! 0)) v")
    case False
    with run have "t2 = t" by (simp add: distribute_def)
    then show ?thesis by (rule same)
  next
    case True
    let ?act = "\<lambda>j u. containsCenter bb (heap u (the (octants (heap u a)) ! j)) v"
    from True run have f: "foldR (moveToOctant k bb a v) octantIndices t = Ok t2"
      by (simp add: distribute_def)
    have "t2 = t \<or> (\<exists>j \<in> set octantIndices. ?act j t \<and> moveToOctant k bb a v j t = Ok t2)"
      using f
    proof (rule foldR_one)
      show "distinct octantIndices" by (simp add: octantIndices_upt)
      show "moveToOctant k bb a v j u = Ok u" if "\<not> ?act j u" for j u
        using that by (simp add: moveToOctant_def)
      show "\<not> ?act j' u'"
        if jj: "j \<in> set octantIndices" "j' \<in> set octantIndices" "j' \<noteq> j"
          and a: "?act j t" and m: "moveToOctant k bb a v j t = Ok u'" for j j' u'
      proof -
        from jj have j8: "j < 8" "j' < 8" "j \<noteq> j'" by auto
        from a os j8 have a': "containsCenter bb (heap t (n + j)) v" by simp
        from moveToOctant_step(2)[OF IHi sp v j8(1) a' m]
        have sp': "splitting X a n A u'" .
        then have os': "octants (heap u' a) = Some (octantAddrs n)"
          and geo': "min_n (heap u' (n + j')) = octantMin (min_n A) (size_n A / 2) j'"
             "size_n (heap u' (n + j')) = size_n A / 2"
          using j8 by (simp_all add: splitting_def)
        from a' have cp: "containsPoint (heap t (n + j)) (center (bb v))" by (simp add: containsCenter_def)
        have "\<not> containsPoint (heap u' (n + j')) (center (bb v))"
          by (rule octant_cells_disjoint[OF j8(1) j8(2) j8(3) conjunct1[OF geo[OF j8(1)]]
                conjunct2[OF geo[OF j8(1)]] geo'(1) geo'(2) cp])
        then show ?thesis using os' j8 by (simp add: containsCenter_def)
      qed
    qed
    then show ?thesis
    proof
      assume "t2 = t"
      then show ?thesis by (rule same)
    next
      assume "\<exists>j \<in> set octantIndices. ?act j t \<and> moveToOctant k bb a v j t = Ok t2"
      then obtain j where j: "j < 8" and a: "?act j t" and m: "moveToOctant k bb a v j t = Ok t2"
        by auto
      from a os j have a': "containsCenter bb (heap t (n + j)) v" by simp
      from moveToOctant_step[OF IHi sp v j a' m] show ?thesis by simp
    qed
  qed
qed

lemma distribute_loop:
  assumes IHi: "insertSpec k bb X"
    and "foldR (distribute k bb a) vs t = Ok t'" and "splitting X a n A t"
    and "distinct vs" and "set vs \<subseteq> set (objects (heap t a))"
  shows "subtreeStep X {} 0 a t t' \<and> splitting X a n A t'"
  using assms(2-)
proof (induction vs arbitrary: t)
  case Nil
  then show ?case by (auto simp: splitting_def intro: subtreeStep_refl)
next
  case (Cons v vs)
  from Cons.prems(1) obtain u where d: "distribute k bb a v t = Ok u"
    and rest: "foldR (distribute k bb a) vs u = Ok t'"
    by (auto simp: bnd_Ok_iff)
  have v: "v \<in> set (objects (heap t a))" using Cons.prems(4) by simp
  from distribute_step[OF IHi Cons.prems(2) v d]
  have st1: "subtreeStep X {} 0 a t u" and sp1: "splitting X a n A u"
    and sub: "set (objects (heap t a)) - {v} \<subseteq> set (objects (heap u a))"
    by simp_all
  have "set vs \<subseteq> set (objects (heap u a))" using Cons.prems(3,4) sub by auto
  with Cons.IH[OF rest sp1] Cons.prems(3)
  have st2: "subtreeStep X {} 0 a u t'" and sp2: "splitting X a n A t'" by simp_all
  from subtreeStep_trans[OF st1 st2] sp2 show ?case by simp
qed

lemma splitOctant_step:
  assumes IHs: "splitSpec k bb X" and sp: "splitting X a n A t"
    and cnt: "count_n (heap t a) \<le> 9" and i: "i < 8"
    and run: "splitOctant k bb a i t = Ok t'"
  shows "subtreeStep X {} 0 a t t' \<and> splitting X a n A t' \<and> count_n (heap t' a) \<le> 9"
proof -
  let ?os = "octantAddrs n" and ?c = "n + i"
  have ok: "treeOk X t a" and al: "otnAlloc X t" and os: "octants (heap t a) = Some ?os"
    and an: "a < n" and nn: "n + 8 \<le> nextAddr t"
    using sp by (simp_all add: splitting_def)
  from run os i have run1: "split k bb ?c t = Ok t'" by (simp add: splitOctant_def)
  have k0: "kidsOk X t a ?os" using ok os by (rule treeOk_kidsOk)
  have c: "?c \<in> set ?os" using i by (auto simp: set_octantAddrs)
  have na: "nodeInv 0 True X t a" using ok by (rule treeOk_node)
  note N = nodeInvD[OF na] and I = nodeInv_innerD[OF na os]
  have kid_ok: "treeOk X t c'" if "c' \<in> set ?os" for c'
    using k0 that by (simp add: kidsOk_def)
  have pre: "\<forall>b \<in> reach (heap t) ?c. nodeInv 0 (b \<noteq> ?c) X t b"
  proof
    fix b assume "b \<in> reach (heap t) ?c"
    with kid_ok[OF c] have "nodeInv 0 True X t b" by (simp add: treeOk_def)
    then show "nodeInv 0 (b \<noteq> ?c) X t b" by (cases "b = ?c") (auto intro: nodeInv_weaken)
  qed
  have "count_n (heap t ?c) \<le> sum_list (map (\<lambda>c. count_n (heap t c)) ?os)"
    using c
  proof (rule member_le_sum_list_int[rotated])
    show "0 \<le> count_n (heap t c')" if "c' \<in> set ?os" for c'
      using treeOk_node[OF kid_ok[OF that]] by (rule nodeInv_count_nonneg)
  qed
  with I(4) cnt have bound: "depth (heap t ?c) \<noteq> MAX_DEPTH \<longrightarrow> count_n (heap t ?c) \<le> 9" by simp
  from IHs[unfolded splitSpec_def, rule_format, OF run1 pre[rule_format] al bound[rule_format]]
  have st: "subtreeStep X {} 0 ?c t t'" .
  have V: "\<forall>x \<in> {}. x \<notin> X \<longrightarrow> (\<forall>c' \<in> set ?os. c' \<noteq> ?c \<longrightarrow>
              (\<forall>b \<in> reach (heap t) c'. objectToNode t x \<noteq> Some b))"
    by simp
  note K = kids_step[OF k0 c st V]
  note D = subtreeStepD[OF st]
  have os': "octants (heap t' a) = Some ?os" using K(1) os by simp
  have sum': "sum_list (map (\<lambda>c. count_n (heap t' c)) ?os) = sum_list (map (\<lambda>c. count_n (heap t c)) ?os) + 0"
    using I(2) c K(3) by (rule sum_list_counts_update)
  have na': "nodeInv 0 True X t' a"
    using os'
  proof (rule nodeInv_innerI)
    show "a < nextAddr t'" using N(1) D(3) by simp
    show "distinct (objects (heap t' a))" using N(2) by (simp add: K(1))
    show "set (objects (heap t' a)) \<inter> X = {}" using N(3) by (simp add: K(1))
    show "(objectToNode t' x = Some a) = (x \<in> set (objects (heap t' a)))" if x: "x \<notin> X" for x
    proof -
      have "x \<notin> {}" by simp
      from K(5)[OF x this] N(4)[OF x] show ?thesis by (simp add: K(1))
    qed
    show "length ?os = 8" "distinct ?os" by simp_all
    show "8 < count_n (heap t' a)" using I(3) by (simp add: K(1))
    show "count_n (heap t' a) - 0 = int (length (objects (heap t' a))) +
        sum_list (map (\<lambda>c. count_n (heap t' c)) ?os)"
      unfolding sum' using I(4) by (simp add: K(1))
    show "parent (heap t' c') = Some a \<and> depth (heap t' c') = depth (heap t' a) + 1"
      if "c' \<in> set ?os" for c'
      using K(2) that by (simp add: kidsOk_def)
  qed
  have st': "subtreeStep X {} 0 a t t'"
  proof (rule parent_step[where s = t and s' = t' and V' = "{}" and d' = 0, OF k0 c st V])
    show "nodeInv 0 True X t' a" by (rule na')
    show "count_n (heap t' a) = count_n (heap t a) + 0" by (simp add: K(1))
  qed simp_all
  have "extends t t'" using run1 nodeInsert_split_extends by blast
  with sp st' have "splitting X a n A t'" using os' by (rule splitting_step)
  with st' cnt show ?thesis by (simp add: K(1))
qed

lemma foldR_rel_inv:
  assumes "foldR f vs s = Ok s'" and "P s"
    and "\<And>v t t'. v \<in> set vs \<Longrightarrow> P t \<Longrightarrow> f v t = Ok t' \<Longrightarrow> R t t' \<and> P t'"
    and "\<And>t. P t \<Longrightarrow> R t t" and "\<And>t t' t''. R t t' \<Longrightarrow> R t' t'' \<Longrightarrow> R t t''"
  shows "R s s' \<and> P s'"
  using assms(1,2,3)
proof (induction vs arbitrary: s)
  case Nil
  then show ?case using assms(4) by simp
next
  case (Cons v vs)
  from Cons.prems(1) obtain u where u: "f v s = Ok u" and rest: "foldR f vs u = Ok s'"
    by (auto simp: bnd_Ok_iff)
  from Cons.prems(3)[of v s u] Cons.prems(2) u have 1: "R s u" "P u" by simp_all
  have "R u s' \<and> P s'"
    using rest 1(2)
  proof (rule Cons.IH)
    show "R t t' \<and> P t'" if "w \<in> set vs" "P t" "f w t = Ok t'" for w t t'
      using that Cons.prems(3)[of w t t'] by simp
  qed
  with 1(1) assms(5) show ?case by blast
qed

lemma split_step:
  assumes IHi: "insertSpec k bb X" and IHs: "splitSpec k bb X"
  shows "splitSpec (Suc k) bb X"
  unfolding splitSpec_def
proof (intro allI impI)
  fix a s s'
  assume run: "split (Suc k) bb a s = Ok s'"
    and pre: "\<forall>b \<in> reach (heap s) a. nodeInv 0 (b \<noteq> a) X s b" and al: "otnAlloc X s"
    and bound: "depth (heap s a) \<noteq> MAX_DEPTH \<longrightarrow> count_n (heap s a) \<le> 9"
  have na: "nodeInv 0 False X s a" using bspec[OF pre reach_self] by simp
  show "subtreeStep X {} 0 a s s'"
  proof (cases "length (objects (heap s a)) \<le> 8 \<or> depth (heap s a) = MAX_DEPTH")
    case True
    with run have s': "s' = s" by (simp add: split_Suc)
    have "nodeInv 0 True X s a" using True by (intro nodeInv_strict[OF na]) auto
    with pre have "treeOk X s a" unfolding treeOk_def by (metis (full_types))
    then show ?thesis unfolding s' by (rule subtreeStep_refl)
  next
    case False
    then have big: "8 < length (objects (heap s a))" and cnt: "count_n (heap s a) \<le> 9"
      using bound by simp_all
    let ?s1 = "createOctants a s"
    note C = createOctants_step[OF pre al cnt big]
    from run False obtain s5 where
      f1: "foldR (distribute k bb a) (objects (heap ?s1 a)) ?s1 = Ok s5"
      and f2: "foldR (splitOctant k bb a) octantIndices s5 = Ok s'"
      by (auto simp: split_Suc bnd_Ok_iff)
    have "distinct (objects (heap ?s1 a))" using nodeInvD(2)[OF na] C(3) by simp
    from distribute_loop[OF IHi f1 C(2) this]
    have st2: "subtreeStep X {} 0 a ?s1 s5" and sp5: "splitting X a (nextAddr s) (heap s a) s5"
      by simp_all
    have cnt5: "count_n (heap s5 a) \<le> 9"
      using subtreeStepD(6)[OF C(1)] subtreeStepD(6)[OF st2] cnt by simp
    let ?P = "\<lambda>u. splitting X a (nextAddr s) (heap s a) u \<and> count_n (heap u a) \<le> 9"
    have "subtreeStep X {} 0 a s5 s' \<and> ?P s'"
      using f2
    proof (rule foldR_rel_inv[where P = ?P and R = "subtreeStep X {} 0 a"])
      show "?P s5" using sp5 cnt5 by simp
      show "subtreeStep X {} 0 a t t' \<and> ?P t'"
        if "i \<in> set octantIndices" "?P t" "splitOctant k bb a i t = Ok t'" for i t t'
        using splitOctant_step[OF IHs _ _ _ that(3), of "nextAddr s" "heap s a"] that(1,2) by simp
      show "subtreeStep X {} 0 a t t" if "?P t" for t
        using that by (auto simp: splitting_def intro: subtreeStep_refl)
      show "subtreeStep X {} 0 a t t''" if "subtreeStep X {} 0 a t t'" "subtreeStep X {} 0 a t' t''" for t t' t''
        using subtreeStep_trans[OF that] by simp
    qed
    then have st3: "subtreeStep X {} 0 a s5 s'" by simp
    from subtreeStep_trans[OF subtreeStep_trans[OF C(1) st2] st3] show ?thesis by simp
  qed
qed

lemma insert_split_spec: "insertSpec k bb X \<and> splitSpec k bb X"
proof (induction k)
  case 0
  show ?case by (simp add: insertSpec_def splitSpec_def)
next
  case (Suc k)
  then show ?case using insert_step split_step by blast
qed

section \<open>The invariant: merge and remove\<close>

lemma reach_via:
  "b \<in> reach h r \<Longrightarrow> b = r \<or> (\<exists>q os. q \<in> reach h r \<and> octants (h q) = Some os \<and> b \<in> set os)"
  by (erule reach.cases) auto

lemma map_nth_octantIndices: "length os = 8 \<Longrightarrow> map (\<lambda>i. os ! i) octantIndices = os"
  using map_nth[of os] by (simp add: octantIndices_upt)

lemma childObjects_concat: "length os = 8 \<Longrightarrow> childObjects h os = concat (map (\<lambda>c. objects (h c)) os)"
proof -
  assume l: "length os = 8"
  have "map (\<lambda>i. objects (h (os ! i))) octantIndices = map (\<lambda>c. objects (h c)) (map (\<lambda>i. os ! i) octantIndices)"
    by simp
  then show ?thesis unfolding childObjects_def by (simp only: map_nth_octantIndices[OF l])
qed

lemma distinct_concat_map:
  assumes "distinct os" and "\<And>c. c \<in> set os \<Longrightarrow> distinct (f c)"
    and "\<And>c c'. c \<in> set os \<Longrightarrow> c' \<in> set os \<Longrightarrow> c \<noteq> c' \<Longrightarrow> set (f c) \<inter> set (f c') = {}"
  shows "distinct (concat (map f os))"
  using assms
proof (induction os)
  case Nil
  then show ?case by simp
next
  case (Cons c os)
  have "distinct (concat (map f os))"
    by (rule Cons.IH) (use Cons.prems in auto)
  moreover have "set (f c) \<inter> set (f c') = {}" if "c' \<in> set os" for c'
    using that Cons.prems(1) by (intro Cons.prems(3)) auto
  ultimately show ?case using Cons.prems(2)[of c] by auto
qed

lemma length_concat_map_int:
  "int (length (concat (map f os))) = sum_list (map (\<lambda>c. int (length (f c))) os)"
  by (induction os) auto

lemma length_fold_set_add:
  "distinct ys \<Longrightarrow> set ys \<inter> set xs = {} \<Longrightarrow> length (fold set_add ys xs) = length xs + length ys"
proof (induction ys arbitrary: xs)
  case Nil
  then show ?case by simp
next
  case (Cons y ys)
  have sa: "set_add y xs = xs @ [y]" using Cons.prems by (simp add: set_add_def)
  have "length (fold set_add ys (xs @ [y])) = length (xs @ [y]) + length ys"
    by (rule Cons.IH) (use Cons.prems in auto)
  then show ?case by (simp add: sa)
qed

lemma reach_prune:
  assumes h': "\<And>b. b \<noteq> p \<Longrightarrow> octants (h' b) = octants (h b)" and leaf': "octants (h' p) = None"
    and os: "octants (h p) = Some os"
    and leaves: "\<And>c. c \<in> set os \<Longrightarrow> octants (h c) = None"
    and uniq: "\<And>b os' c. b \<in> reach h r \<Longrightarrow> octants (h b) = Some os' \<Longrightarrow> c \<in> set os' \<Longrightarrow> c \<in> set os \<Longrightarrow> b = p"
    and r: "r \<notin> set os"
  shows "reach h' r = reach h r - set os"
proof (intro equalityI subsetI)
  fix b assume "b \<in> reach h' r"
  then show "b \<in> reach h r - set os"
  proof (induction rule: reach.induct)
    case reach_self
    then show ?case using r by (simp add: reach.reach_self)
  next
    case (reach_octant b os' c)
    from reach_octant(2) leaf' have ne: "b \<noteq> p" by auto
    with reach_octant(2) h' have o: "octants (h b) = Some os'" by simp
    from reach_octant(4) have b: "b \<in> reach h r" by simp
    have "c \<in> reach h r" using b o reach_octant(3) by (rule reach.reach_octant)
    moreover have "c \<notin> set os" using uniq[OF b o reach_octant(3)] ne by auto
    ultimately show ?case by simp
  qed
next
  fix b assume "b \<in> reach h r - set os"
  then have "b \<in> reach h r" and nb: "b \<notin> set os" by simp_all
  then have "b \<notin> set os \<longrightarrow> b \<in> reach h' r"
  proof (induction rule: reach.induct)
    case reach_self
    then show ?case by (simp add: reach.reach_self)
  next
    case (reach_octant b os' c)
    show ?case
    proof
      assume c: "c \<notin> set os"
      have "b \<notin> set os" using leaves[of b] reach_octant(2) by auto
      with reach_octant(4) have b': "b \<in> reach h' r" by simp
      have "b \<noteq> p" using os reach_octant(2,3) c by auto
      with h' reach_octant(2) have "octants (h' b) = Some os'" by simp
      with b' show "c \<in> reach h' r" using reach_octant(3) by (rule reach.reach_octant)
    qed
  qed
  with nb show "b \<in> reach h' r" by simp
qed

lemma pendingD:
  assumes "pendingOk X p s"
  shows "p \<in> reach (heap s) (root s)"
    and "\<And>b. b \<in> reach (heap s) (root s) \<Longrightarrow> b \<noteq> p \<Longrightarrow> nodeInv 0 True X s b"
    and "nodeInv 1 True X s p"
    and "parent (heap s (root s)) = None"
    and "\<And>x b. x \<notin> X \<Longrightarrow> objectToNode s x = Some b \<Longrightarrow> b \<in> reach (heap s) (root s)"
    and "\<And>b os c. b \<in> reach (heap s) (root s) \<Longrightarrow> octants (heap s b) = Some os \<Longrightarrow> c \<in> set os \<Longrightarrow>
           parent (heap s c) = Some b \<and> depth (heap s c) = depth (heap s b) + 1"
proof -
  show p: "p \<in> reach (heap s) (root s)" using assms by (simp add: pendingOk_def)
  have all: "\<And>b. b \<in> reach (heap s) (root s) \<Longrightarrow> nodeInv (if b = p then 1 else 0) True X s b"
    using assms by (simp add: pendingOk_def)
  show "nodeInv 0 True X s b" if "b \<in> reach (heap s) (root s)" "b \<noteq> p" for b
    using all[OF that(1)] that(2) by simp
  show "nodeInv 1 True X s p" using all[OF p] by simp
  show "parent (heap s (root s)) = None" using assms by (simp add: pendingOk_def)
  show "b \<in> reach (heap s) (root s)" if "x \<notin> X" "objectToNode s x = Some b" for x b
    using assms that by (simp add: pendingOk_def)
  show "parent (heap s c) = Some b \<and> depth (heap s c) = depth (heap s b) + 1"
    if "b \<in> reach (heap s) (root s)" "octants (heap s b) = Some os" "c \<in> set os" for b os c
    using nodeInv_innerD(5)[OF all[OF that(1)] that(2,3)] .
qed

lemma pending_advance:
  assumes P: "pendingOk X p s"
    and sub: "reach (heap s1) (root s) \<subseteq> reach (heap s) (root s)"
    and p1: "p \<in> reach (heap s1) (root s)"
    and frame: "\<And>b. b \<noteq> p \<Longrightarrow> heap s1 b = heap s b"
    and pf: "parent (heap s1 p) = parent (heap s p)" "depth (heap s1 p) = depth (heap s p)"
      "count_n (heap s1 p) = count_n (heap s p) - 1"
    and rt: "root s1 = root s" "nextAddr s1 = nextAddr s"
    and np: "nodeInv 0 True X s1 p"
    and otn_other: "\<And>x b. x \<notin> X \<Longrightarrow> b \<in> reach (heap s1) (root s) \<Longrightarrow> b \<noteq> p \<Longrightarrow>
         (objectToNode s1 x = Some b) = (objectToNode s x = Some b)"
    and track: "\<And>x b. x \<notin> X \<Longrightarrow> objectToNode s1 x = Some b \<Longrightarrow> b \<in> reach (heap s1) (root s)"
  shows "case parent (heap s p) of None \<Rightarrow> octreeOk X s1 | Some q \<Rightarrow> pendingOk X q s1"
proof -
  note D = pendingD[OF P]
  have pr1: "parent (heap s1 (root s1)) = None"
    using D(4) pf(1) frame[of "root s"] rt by (cases "root s = p") simp_all
  have other: "nodeInv (if parent (heap s p) = Some b then 1 else 0) True X s1 b"
    if b1: "b \<in> reach (heap s1) (root s)" and ne: "b \<noteq> p" for b
  proof -
    from b1 sub have b: "b \<in> reach (heap s) (root s)" by auto
    note nb = D(2)[OF b ne]
    note N = nodeInvD[OF nb]
    have hb: "heap s1 b = heap s b" using ne by (rule frame)
    show ?thesis
    proof (cases "octants (heap s b)")
      case None
      have "parent (heap s p) \<noteq> Some b"
      proof
        assume pb: "parent (heap s p) = Some b"
        from reach_via[OF D(1)] show False
        proof
          assume "p = root s"
          with D(4) pb show False by simp
        next
          assume "\<exists>q os. q \<in> reach (heap s) (root s) \<and> octants (heap s q) = Some os \<and> p \<in> set os"
          then obtain q os where q: "q \<in> reach (heap s) (root s)" "octants (heap s q) = Some os" "p \<in> set os"
            by blast
          from D(6)[OF q] pb have "q = b" by simp
          with q(2) None show False by simp
        qed
      qed
      moreover have "nodeInv 0 True X s1 b"
        using nb
      proof (rule nodeInv_transfer)
        show "heap s1 b = heap s b" by (rule hb)
        show "nextAddr s \<le> nextAddr s1" using rt by simp
        show "(objectToNode s1 x = Some b) = (objectToNode s x = Some b)" if "x \<notin> X" for x
          using that b1 ne by (rule otn_other)
      qed (simp add: None)
      ultimately show ?thesis by simp
    next
      case (Some os)
      note I = nodeInv_innerD[OF nb Some]
      have kids: "parent (heap s1 c) = Some b \<and> depth (heap s1 c) = depth (heap s1 b) + 1"
        if "c \<in> set os" for c
        using I(5)[OF that] pf frame[of c] hb by (cases "c = p") simp_all
      have os1: "octants (heap s1 b) = Some os" using Some hb by simp
      show ?thesis
      proof (cases "p \<in> set os")
        case True
        from D(6)[OF b Some True] have pb: "parent (heap s p) = Some b" by simp
        have "sum_list (map (\<lambda>c. count_n (heap s1 c)) os) = sum_list (map (\<lambda>c. count_n (heap s c)) os) + (- 1)"
          using I(2) True
        proof (rule sum_list_counts_update)
          show "count_n (heap s1 c') = count_n (heap s c') + (if c' = p then - 1 else 0)"
            if "c' \<in> set os" for c'
            using pf(3) frame[of c'] by (cases "c' = p") simp_all
        qed
        then have "nodeInv 1 True X s1 b"
          using I kids N otn_other[OF _ b1 ne] rt
          by (intro nodeInv_innerI[OF os1]) (simp_all add: hb)
        with pb show ?thesis by simp
      next
        case False
        have "parent (heap s p) \<noteq> Some b"
        proof
          assume pb: "parent (heap s p) = Some b"
          from reach_via[OF D(1)] show False
          proof
            assume "p = root s"
            with D(4) pb show False by simp
          next
            assume "\<exists>q os. q \<in> reach (heap s) (root s) \<and> octants (heap s q) = Some os \<and> p \<in> set os"
            then obtain q os' where q: "q \<in> reach (heap s) (root s)" "octants (heap s q) = Some os'" "p \<in> set os'"
              by blast
            from D(6)[OF q] pb have "q = b" by simp
            with q(2,3) Some False show False by simp
          qed
        qed
        moreover have "nodeInv 0 True X s1 b"
          using nb
        proof (rule nodeInv_transfer)
          show "heap s1 b = heap s b" by (rule hb)
          show "nextAddr s \<le> nextAddr s1" using rt by simp
          show "(objectToNode s1 x = Some b) = (objectToNode s x = Some b)" if "x \<notin> X" for x
            using that b1 ne by (rule otn_other)
          show "parent (heap s1 c) = parent (heap s c) \<and> depth (heap s1 c) = depth (heap s c) \<and>
                count_n (heap s1 c) = count_n (heap s c)"
            if "octants (heap s b) = Some os'" "c \<in> set os'" for os' c
          proof -
            from that Some False have "c \<noteq> p" by auto
            then show ?thesis by (simp add: frame)
          qed
        qed
        ultimately show ?thesis by simp
      qed
    qed
  qed
  show ?thesis
  proof (cases "parent (heap s p)")
    case None
    have "nodeInv 0 True X s1 b" if "b \<in> reach (heap s1) (root s)" for b
      using other[OF that] np None by (cases "b = p") simp_all
    then show ?thesis
      using None pr1 track rt by (simp add: octreeOk_def treeOk_def)
  next
    case (Some q)
    have qp: "q \<noteq> p"
    proof
      assume "q = p"
      from reach_via[OF D(1)] show False
      proof
        assume "p = root s"
        with D(4) Some show False by simp
      next
        assume "\<exists>q os. q \<in> reach (heap s) (root s) \<and> octants (heap s q) = Some os \<and> p \<in> set os"
        then obtain q' os' where q: "q' \<in> reach (heap s) (root s)" "octants (heap s q') = Some os'" "p \<in> set os'"
          by blast
        from D(6)[OF q] Some \<open>q = p\<close> have "q' = p" by simp
        with D(6)[OF q] show False by simp
      qed
    qed
    have q1: "q \<in> reach (heap s1) (root s)"
    proof -
      from reach_via[OF p1] show ?thesis
      proof
        assume "p = root s"
        with D(4) Some show ?thesis by simp
      next
        assume "\<exists>q os. q \<in> reach (heap s1) (root s) \<and> octants (heap s1 q) = Some os \<and> p \<in> set os"
        then obtain q' os' where q: "q' \<in> reach (heap s1) (root s)" "octants (heap s1 q') = Some os'" "p \<in> set os'"
          by blast
        have "q' \<noteq> p"
        proof
          assume "q' = p"
          with nodeInv_innerD(5)[OF np, of os' p] q(2,3) show False by simp
        qed
        then have "heap s1 q' = heap s q'" by (rule frame)
        with q have "octants (heap s q') = Some os'" by simp
        moreover from q(1) sub have "q' \<in> reach (heap s) (root s)" by auto
        ultimately have "parent (heap s p) = Some q'" using D(6) q(3) by blast
        with Some q(1) show ?thesis by simp
      qed
    qed
    have "nodeInv (if b = q then 1 else 0) True X s1 b" if "b \<in> reach (heap s1) (root s)" for b
    proof (cases "b = p")
      case True
      with np qp show ?thesis by simp
    next
      case False
      from other[OF that False] Some show ?thesis by (simp add: eq_commute)
    qed
    with Some q1 pr1 track rt show ?thesis by (simp add: pendingOk_def)
  qed
qed

lemma fix_step:
  assumes P: "pendingOk X p s"
  shows "parent (heap (merge p (upd p (\<lambda>n. n\<lparr>count_n := count_n n - 1\<rparr>) s)) p) = parent (heap s p)"
    and "case parent (heap s p) of
           None \<Rightarrow> octreeOk X (merge p (upd p (\<lambda>n. n\<lparr>count_n := count_n n - 1\<rparr>) s))
         | Some q \<Rightarrow> pendingOk X q (merge p (upd p (\<lambda>n. n\<lparr>count_n := count_n n - 1\<rparr>) s))"
proof -
  let ?s0 = "upd p (\<lambda>n. n\<lparr>count_n := count_n n - 1\<rparr>) s"
  let ?s1 = "merge p ?s0"
  note D = pendingD[OF P]
  note np = D(3)
  note N = nodeInvD[OF np]
  have kid_ne: "c \<noteq> p" if "octants (heap s p) = Some os" "c \<in> set os" for os c
    using nodeInv_innerD(5)[OF np that] by auto
  have "parent (heap ?s1 p) = parent (heap s p) \<and>
        (case parent (heap s p) of None \<Rightarrow> octreeOk X ?s1 | Some q \<Rightarrow> pendingOk X q ?s1)"
  proof (cases "octants (heap s p) = None \<or> count_n (heap s p) - 1 > 8")
    case True
    then have m: "?s1 = ?s0" by (intro merge_noop) auto
    have r0: "reach (heap ?s0) (root s) = reach (heap s) (root s)"
      by (rule reach_cong) simp
    have np0: "nodeInv 0 True X ?s0 p"
    proof (cases "octants (heap s p)")
      case None
      then have "octants (heap ?s0 p) = None" by simp
      then show ?thesis
        using N nodeInv_leafD[OF np None] by (intro nodeInv_leafI) simp_all
    next
      case (Some os)
      note I = nodeInv_innerD[OF np Some]
      have os0: "octants (heap ?s0 p) = Some os" using Some by simp
      have "sum_list (map (\<lambda>c. count_n (heap ?s0 c)) os) = sum_list (map (\<lambda>c. count_n (heap s c)) os)"
        by (intro arg_cong[where f = sum_list] map_cong refl) (use kid_ne[OF Some] in auto)
      moreover have "parent (heap ?s0 c) = Some p \<and> depth (heap ?s0 c) = depth (heap ?s0 p) + 1"
        if "c \<in> set os" for c
        using I(5)[OF that] kid_ne[OF Some that] by simp
      ultimately show ?thesis
        using N I(1,2,4) True Some by (intro nodeInv_innerI[OF os0]) simp_all
    qed
    have "case parent (heap s p) of None \<Rightarrow> octreeOk X ?s0 | Some q \<Rightarrow> pendingOk X q ?s0"
      using P
    proof (rule pending_advance)
      show "reach (heap ?s0) (root s) \<subseteq> reach (heap s) (root s)" using r0 by simp
      show "p \<in> reach (heap ?s0) (root s)" using r0 D(1) by simp
      show "nodeInv 0 True X ?s0 p" by (rule np0)
      show "b \<in> reach (heap ?s0) (root s)" if "x \<notin> X" "objectToNode ?s0 x = Some b" for x b
        using D(5)[of x b] that r0 by simp
    qed simp_all
    then show ?thesis unfolding m by simp
  next
    case False
    then obtain os where os: "octants (heap s p) = Some os" and le: "count_n (heap s p) - 1 \<le> 8"
      by auto
    note I = nodeInv_innerD[OF np os]
    have kr: "c \<in> reach (heap s) (root s)" if "c \<in> set os" for c
      using D(1) os that by (rule reach_octant)
    have kn: "nodeInv 0 True X s c" if "c \<in> set os" for c
      using kr[OF that] kid_ne[OF os that] by (rule D(2))
    have knn: "0 \<le> count_n (heap s c)" if "c \<in> set os" for c
      using kn[OF that] by (rule nodeInv_count_nonneg)
    have kle: "count_n (heap s c) \<le> 8" if "c \<in> set os" for c
      using member_le_sum_list_int[of os "\<lambda>c. count_n (heap s c)" c] knn that I(4) le by simp
    have kleaf: "octants (heap s c) = None" if "c \<in> set os" for c
    proof (cases "octants (heap s c)")
      case (Some os')
      from nodeInv_innerD(3)[OF kn[OF that] Some] kle[OF that] show ?thesis by simp
    qed simp
    have kcount: "count_n (heap s c) = int (length (objects (heap s c)))" if "c \<in> set os" for c
      using nodeInv_leafD(1)[OF kn[OF that] kleaf[OF that]] by simp
    let ?CO = "concat (map (\<lambda>c. objects (heap s c)) os)"
    have co: "childObjects (heap ?s0) os = ?CO"
    proof -
      have "map (\<lambda>c. objects (heap ?s0 c)) os = map (\<lambda>c. objects (heap s c)) os"
        by (intro map_cong refl) (use kid_ne[OF os] in auto)
      then show ?thesis by (simp only: childObjects_concat[OF I(1)])
    qed
    have CO_D: "\<exists>c \<in> set os. x \<in> set (objects (heap s c)) \<and> x \<notin> X \<and> objectToNode s x = Some c"
      if "x \<in> set ?CO" for x
    proof -
      from that obtain c where c: "c \<in> set os" "x \<in> set (objects (heap s c))" by auto
      with nodeInvD(3,4)[OF kn[OF c(1)]] show ?thesis by auto
    qed
    have CO_I: "x \<in> set ?CO" if "c \<in> set os" "x \<in> set (objects (heap s c))" for c x
      using that by auto
    have dCO: "distinct ?CO"
    proof (rule distinct_concat_map)
      show "distinct os" by (rule I(2))
      show "distinct (objects (heap s c))" if "c \<in> set os" for c
        using nodeInvD(2)[OF kn[OF that]] .
      show "set (objects (heap s c)) \<inter> set (objects (heap s c')) = {}"
        if "c \<in> set os" "c' \<in> set os" "c \<noteq> c'" for c c'
        using nodeInvD(3,4)[OF kn[OF that(1)]] nodeInvD(3,4)[OF kn[OF that(2)]] that(3) by fastforce
    qed
    have disj: "set ?CO \<inter> set (objects (heap s p)) = {}"
    proof -
      have False if "x \<in> set ?CO" "x \<in> set (objects (heap s p))" for x
      proof -
        from CO_D[OF that(1)] obtain c where c: "c \<in> set os" "x \<notin> X" "objectToNode s x = Some c" by auto
        with N(4)[OF c(2)] that(2) kid_ne[OF os c(1)] show False by simp
      qed
      then show ?thesis by auto
    qed
    have lCO: "int (length ?CO) = sum_list (map (\<lambda>c. count_n (heap s c)) os)"
      unfolding length_concat_map_int
      by (intro arg_cong[where f = sum_list] map_cong refl) (simp add: kcount)
    have ne_i: "\<forall>i \<in> set octantIndices. os ! i \<noteq> p"
      using I(1) kid_ne[OF os] by auto
    have m: "?s1 = ?s0\<lparr>heap := (heap ?s0)(p := (heap ?s0 p)\<lparr>objects := fold set_add ?CO (objects (heap ?s0 p)),
                                       octants := None\<rparr>),
       objectToNode := (\<lambda>x. if x \<in> set ?CO then Some p else objectToNode ?s0 x)\<rparr>"
      unfolding co[symmetric]
      by (rule merge_eq) (use os le ne_i in simp_all)
    have h1p: "heap ?s1 p = (heap s p)\<lparr>count_n := count_n (heap s p) - 1,
        objects := fold set_add ?CO (objects (heap s p)), octants := None\<rparr>"
      unfolding m by simp
    have h1o: "heap ?s1 b = heap s b" if "b \<noteq> p" for b
      unfolding m using that by simp
    have otn1: "objectToNode ?s1 x = (if x \<in> set ?CO then Some p else objectToNode s x)" for x
      unfolding m by simp
    have rt1: "root ?s1 = root s" "nextAddr ?s1 = nextAddr s"
      unfolding m by simp_all
    have root_kid: "root s \<notin> set os"
    proof
      assume "root s \<in> set os"
      from I(5)[OF this] D(4) show False by simp
    qed
    have r1: "reach (heap ?s1) (root s) = reach (heap s) (root s) - set os"
    proof (rule reach_prune[where p = p])
      show "octants (heap ?s1 b) = octants (heap s b)" if "b \<noteq> p" for b
        using h1o[OF that] by simp
      show "octants (heap ?s1 p) = None" by (simp add: h1p)
      show "octants (heap s p) = Some os" by (rule os)
      show "octants (heap s c) = None" if "c \<in> set os" for c using that by (rule kleaf)
      show "b = p" if "b \<in> reach (heap s) (root s)" "octants (heap s b) = Some os'" "c \<in> set os'" "c \<in> set os"
        for b os' c
        using D(6)[OF that(1,2,3)] I(5)[OF that(4)] by simp
      show "root s \<notin> set os" by (rule root_kid)
    qed
    have p_kid: "p \<notin> set os" using kid_ne[OF os] by auto
    have len: "length (fold set_add ?CO (objects (heap s p))) = length (objects (heap s p)) + length ?CO"
      using dCO disj by (rule length_fold_set_add)
    have cnt1: "count_n (heap s p) - 1 = int (length (objects (heap s p)) + length ?CO)"
      using I(4) lCO by simp
    have np1: "nodeInv 0 True X ?s1 p"
    proof (rule nodeInv_leafI)
      show "octants (heap ?s1 p) = None" by (simp add: h1p)
      show "p < nextAddr ?s1" using N(1) rt1 by simp
      show "distinct (objects (heap ?s1 p))" using N(2) by (simp add: h1p)
      show "set (objects (heap ?s1 p)) \<inter> X = {}" using N(3) CO_D by (auto simp: h1p)
      show "(objectToNode ?s1 x = Some p) = (x \<in> set (objects (heap ?s1 p)))" if "x \<notin> X" for x
        using N(4)[OF that] by (simp add: h1p otn1)
      show "count_n (heap ?s1 p) - 0 = int (length (objects (heap ?s1 p)))"
        using cnt1 by (simp add: h1p len)
      show "length (objects (heap ?s1 p)) \<le> 8"
        using cnt1 le by (simp add: h1p len)
    qed
    have "case parent (heap s p) of None \<Rightarrow> octreeOk X ?s1 | Some q \<Rightarrow> pendingOk X q ?s1"
      using P
    proof (rule pending_advance)
      show "reach (heap ?s1) (root s) \<subseteq> reach (heap s) (root s)" using r1 by auto
      show "p \<in> reach (heap ?s1) (root s)" using r1 D(1) p_kid by simp
      show "heap ?s1 b = heap s b" if "b \<noteq> p" for b using that by (rule h1o)
      show "parent (heap ?s1 p) = parent (heap s p)" "depth (heap ?s1 p) = depth (heap s p)"
        "count_n (heap ?s1 p) = count_n (heap s p) - 1"
        by (simp_all add: h1p)
      show "root ?s1 = root s" "nextAddr ?s1 = nextAddr s" by (rule rt1)+
      show "nodeInv 0 True X ?s1 p" by (rule np1)
      show "(objectToNode ?s1 x = Some b) = (objectToNode s x = Some b)"
        if "x \<notin> X" "b \<in> reach (heap ?s1) (root s)" "b \<noteq> p" for x b
      proof (cases "x \<in> set ?CO")
        case True
        from CO_D[OF True] obtain c where "c \<in> set os" "objectToNode s x = Some c" by auto
        with that(2,3) r1 True show ?thesis by (auto simp: otn1)
      next
        case False
        then show ?thesis by (simp add: otn1)
      qed
      show "b \<in> reach (heap ?s1) (root s)" if "x \<notin> X" "objectToNode ?s1 x = Some b" for x b
      proof (cases "x \<in> set ?CO")
        case True
        with that(2) have "b = p" by (simp add: otn1)
        then show ?thesis using r1 D(1) p_kid by simp
      next
        case False
        with that(2) have o: "objectToNode s x = Some b" by (simp add: otn1)
        from D(5)[OF that(1) o] have b: "b \<in> reach (heap s) (root s)" .
        have "b \<notin> set os"
        proof
          assume c: "b \<in> set os"
          from nodeInvD(4)[OF kn[OF c] that(1)] o have "x \<in> set (objects (heap s b))" by simp
          with CO_I[OF c] False show False by simp
        qed
        with b r1 show ?thesis by simp
      qed
    qed
    then show ?thesis by (simp add: h1p)
  qed
  then show "parent (heap ?s1 p) = parent (heap s p)"
    and "case parent (heap s p) of None \<Rightarrow> octreeOk X ?s1 | Some q \<Rightarrow> pendingOk X q ?s1"
    by simp_all
qed

lemma cleanAncestors_ok:
  "cleanAncestors k po s = Ok s' \<Longrightarrow>
   (case po of None \<Rightarrow> octreeOk X s | Some q \<Rightarrow> pendingOk X q s) \<Longrightarrow> octreeOk X s'"
proof (induction k arbitrary: po s)
  case 0
  then show ?case by simp
next
  case (Suc k)
  show ?case
  proof (cases po)
    case None
    with Suc.prems show ?thesis by simp
  next
    case (Some a)
    let ?s1 = "merge a (upd a (\<lambda>n. n\<lparr>count_n := count_n n - 1\<rparr>) s)"
    from Suc.prems(2) Some have P: "pendingOk X a s" by simp
    from Suc.prems(1) Some have run: "cleanAncestors k (parent (heap ?s1 a)) ?s1 = Ok s'"
      by (simp add: Let_def)
    from fix_step[OF P] have "case parent (heap ?s1 a) of None \<Rightarrow> octreeOk X ?s1 | Some q \<Rightarrow> pendingOk X q ?s1"
      by simp
    with run show ?thesis by (rule Suc.IH)
  qed
qed

lemma nodeInv_fields:
  assumes "nodeInv d st X s b"
    and "octants (heap s' b) = octants (heap s b)" and "objects (heap s' b) = objects (heap s b)"
    and "count_n (heap s' b) = count_n (heap s b)" and "depth (heap s' b) = depth (heap s b)"
    and "nextAddr s \<le> nextAddr s'"
    and "\<And>x. x \<notin> X \<Longrightarrow> (objectToNode s' x = Some b) = (objectToNode s x = Some b)"
    and "\<And>os c. octants (heap s b) = Some os \<Longrightarrow> c \<in> set os \<Longrightarrow>
           parent (heap s' c) = parent (heap s c) \<and> depth (heap s' c) = depth (heap s c) \<and>
           count_n (heap s' c) = count_n (heap s c)"
  shows "nodeInv d st X s' b"
proof (cases "octants (heap s b)")
  case None
  with assms(1-7) show ?thesis by (simp add: nodeInv_def)
next
  case (Some os)
  have "sum_list (map (\<lambda>c. count_n (heap s' c)) os) = sum_list (map (\<lambda>c. count_n (heap s c)) os)"
    by (intro arg_cong[where f = sum_list] map_cong refl) (simp add: assms(8)[OF Some])
  moreover have "\<forall>c \<in> set os. parent (heap s' c) = parent (heap s c) \<and> depth (heap s' c) = depth (heap s c)"
    using assms(8)[OF Some] by simp
  ultimately show ?thesis
    using assms(1-7) Some by (simp add: nodeInv_def)
qed

lemma treeOk_fields:
  assumes ok: "treeOk X s a"
    and f: "\<And>b. b \<in> reach (heap s) a \<Longrightarrow> octants (heap s' b) = octants (heap s b) \<and>
              objects (heap s' b) = objects (heap s b) \<and> count_n (heap s' b) = count_n (heap s b) \<and>
              depth (heap s' b) = depth (heap s b)"
    and par: "\<And>b. b \<in> reach (heap s) a \<Longrightarrow> b \<noteq> a \<Longrightarrow> parent (heap s' b) = parent (heap s b)"
    and n: "nextAddr s \<le> nextAddr s'"
    and o: "\<And>x b. x \<notin> X \<Longrightarrow> b \<in> reach (heap s) a \<Longrightarrow>
              (objectToNode s' x = Some b) = (objectToNode s x = Some b)"
  shows "treeOk X s' a" and "reach (heap s') a = reach (heap s) a"
proof -
  show r: "reach (heap s') a = reach (heap s) a"
    by (rule reach_cong) (simp add: f)
  show "treeOk X s' a"
    unfolding treeOk_def r
  proof
    fix b assume b: "b \<in> reach (heap s) a"
    with ok have nb: "nodeInv 0 True X s b" by (simp add: treeOk_def)
    show "nodeInv 0 True X s' b"
      using nb
    proof (rule nodeInv_fields)
      show "octants (heap s' b) = octants (heap s b)" "objects (heap s' b) = objects (heap s b)"
        "count_n (heap s' b) = count_n (heap s b)" "depth (heap s' b) = depth (heap s b)"
        using f[OF b] by simp_all
      show "nextAddr s \<le> nextAddr s'" by (rule n)
      show "(objectToNode s' x = Some b) = (objectToNode s x = Some b)" if "x \<notin> X" for x
        using that b by (rule o)
      show "parent (heap s' c) = parent (heap s c) \<and> depth (heap s' c) = depth (heap s c) \<and>
           count_n (heap s' c) = count_n (heap s c)"
        if "octants (heap s b) = Some os" "c \<in> set os" for os c
      proof -
        from b that have c: "c \<in> reach (heap s) a" by (rule reach_octant)
        have "depth (heap s c) = depth (heap s b) + 1"
          using nodeInv_innerD(5)[OF nb that] by simp
        with depth_reach[OF ok b] have "depth (heap s a) < depth (heap s c)" by auto
        then have "c \<noteq> a" by auto
        with c show ?thesis by (simp add: f par)
      qed
    qed
  qed
qed

lemma octreeOkD:
  assumes "octreeOk X s"
  shows "treeOk X s (root s)" and "parent (heap s (root s)) = None"
    and "\<And>x b. x \<notin> X \<Longrightarrow> objectToNode s x = Some b \<Longrightarrow> b \<in> reach (heap s) (root s)"
    and "nodeInv 0 True X s (root s)" and "root s < nextAddr s" and "otnAlloc X s"
proof -
  show t: "treeOk X s (root s)" and "parent (heap s (root s)) = None"
    using assms by (simp_all add: octreeOk_def)
  show tr: "b \<in> reach (heap s) (root s)" if "x \<notin> X" "objectToNode s x = Some b" for x b
    using assms that by (simp add: octreeOk_def)
  show n: "nodeInv 0 True X s (root s)" using t by (rule treeOk_node)
  show "root s < nextAddr s" using n by (rule nodeInvD(1))
  show "otnAlloc X s" unfolding otnAlloc_def using tr treeOk_allocated[OF t] by blast
qed

lemma nodeInv_exempt:
  "nodeInv d st {} s b \<Longrightarrow> v \<notin> set (objects (heap s b)) \<Longrightarrow> nodeInv d st {v} s b"
  unfolding nodeInv_def by (cases "octants (heap s b)") simp_all

lemma nodeInv_untrack:
  "nodeInv d st {v} s b \<Longrightarrow> nodeInv d st {} (s\<lparr>objectToNode := (objectToNode s)(v := None)\<rparr>) b"
  unfolding nodeInv_def by (cases "octants (heap s b)") auto

lemma octreeOk_untrack:
  assumes "octreeOk {v} s"
  shows "octreeOk {} (s\<lparr>objectToNode := (objectToNode s)(v := None)\<rparr>)"
proof -
  note D = octreeOkD[OF assms]
  have "nodeInv 0 True {} (s\<lparr>objectToNode := (objectToNode s)(v := None)\<rparr>) b"
    if "b \<in> reach (heap s) (root s)" for b
    using D(1) that by (intro nodeInv_untrack) (simp add: treeOk_def)
  moreover have "b \<in> reach (heap s) (root s)"
    if "((objectToNode s)(v := None)) x = Some b" for x b
    using that D(3)[of x b] by (cases "x = v") simp_all
  ultimately show ?thesis using D(2) by (simp add: octreeOk_def treeOk_def)
qed

lemma nodeRemove_ok:
  assumes ok: "octreeOk {} s" and tr: "objectToNode s v = Some a" and run: "nodeRemove k v a s = Ok s'"
  shows "octreeOk {v} s'"
proof -
  let ?sd = "upd a (\<lambda>n. n\<lparr>objects := set_delete v (objects n)\<rparr>) s"
  let ?s2 = "merge a (upd a (\<lambda>n. n\<lparr>count_n := count_n n - 1\<rparr>) ?sd)"
  note D = octreeOkD[OF ok]
  have eq: "upd a (\<lambda>n. n\<lparr>objects := set_delete v (objects n), count_n := count_n n - 1\<rparr>) s =
            upd a (\<lambda>n. n\<lparr>count_n := count_n n - 1\<rparr>) ?sd"
    by (simp add: upd_def)
  have a_r: "a \<in> reach (heap s) (root s)" using D(3)[OF _ tr] by simp
  have na: "nodeInv 0 True {} s a" using D(1) a_r by (simp add: treeOk_def)
  note N = nodeInvD[OF na]
  have v_a: "v \<in> set (objects (heap s a))" using N(4)[of v] tr by simp
  have rd: "reach (heap ?sd) (root s) = reach (heap s) (root s)"
    by (rule reach_cong) simp
  have len: "int (length (removeAll v (objects (heap s a)))) = int (length (objects (heap s a))) - 1"
    using N(2) v_a by (rule length_removeAll_distinct)
  have kid_ne: "c \<noteq> a" if "octants (heap s a) = Some os" "c \<in> set os" for os c
    using nodeInv_innerD(5)[OF na that] by auto
  have nda: "nodeInv 1 True {v} ?sd a"
  proof (cases "octants (heap s a)")
    case None
    note L = nodeInv_leafD[OF na None]
    show ?thesis
    proof (rule nodeInv_leafI)
      show "octants (heap ?sd a) = None" using None by simp
      show "a < nextAddr ?sd" using N(1) by simp
      show "distinct (objects (heap ?sd a))" using N(2) by (simp add: set_delete_def distinct_removeAll)
      show "set (objects (heap ?sd a)) \<inter> {v} = {}" by (simp add: set_delete_def)
      show "(objectToNode ?sd x = Some a) = (x \<in> set (objects (heap ?sd a)))" if "x \<notin> {v}" for x
        using N(4)[of x] that by (simp add: set_delete_def)
      show "count_n (heap ?sd a) - 1 = int (length (objects (heap ?sd a)))"
        using L(1) len by (simp add: set_delete_def)
      show "length (objects (heap ?sd a)) \<le> 8" if "depth (heap ?sd a) \<noteq> MAX_DEPTH"
        using L(2) that len by (simp add: set_delete_def)
    qed
  next
    case (Some os)
    note I = nodeInv_innerD[OF na Some]
    have os': "octants (heap ?sd a) = Some os" using Some by simp
    have sm: "sum_list (map (\<lambda>c. count_n (heap ?sd c)) os) = sum_list (map (\<lambda>c. count_n (heap s c)) os)"
      by (intro arg_cong[where f = sum_list] map_cong refl) (use kid_ne[OF Some] in auto)
    show ?thesis
      using os'
    proof (rule nodeInv_innerI)
      show "a < nextAddr ?sd" using N(1) by simp
      show "distinct (objects (heap ?sd a))" using N(2) by (simp add: set_delete_def distinct_removeAll)
      show "set (objects (heap ?sd a)) \<inter> {v} = {}" by (simp add: set_delete_def)
      show "(objectToNode ?sd x = Some a) = (x \<in> set (objects (heap ?sd a)))" if "x \<notin> {v}" for x
        using N(4)[of x] that by (simp add: set_delete_def)
      show "length os = 8" "distinct os" by (rule I(1), rule I(2))
      show "8 < count_n (heap ?sd a)" using I(3) by simp
      show "count_n (heap ?sd a) - 1 = int (length (objects (heap ?sd a))) +
          sum_list (map (\<lambda>c. count_n (heap ?sd c)) os)"
        unfolding sm using I(4) len by (simp add: set_delete_def)
      show "parent (heap ?sd c) = Some a \<and> depth (heap ?sd c) = depth (heap ?sd a) + 1"
        if "c \<in> set os" for c
        using I(5)[OF that] kid_ne[OF Some that] by simp
    qed
  qed
  have ndb: "nodeInv 0 True {v} ?sd b" if b: "b \<in> reach (heap s) (root s)" and ne: "b \<noteq> a" for b
  proof -
    have nb: "nodeInv 0 True {} s b" using D(1) b by (simp add: treeOk_def)
    have "v \<notin> set (objects (heap s b))" using nodeInvD(4)[OF nb, of v] tr ne by simp
    with nb have "nodeInv 0 True {v} s b" by (rule nodeInv_exempt)
    then show ?thesis
    proof (rule nodeInv_fields)
      show "parent (heap ?sd c) = parent (heap s c) \<and> depth (heap ?sd c) = depth (heap s c) \<and>
           count_n (heap ?sd c) = count_n (heap s c)" for c
        by simp
    qed (use ne in simp_all)
  qed
  have P: "pendingOk {v} a ?sd"
    unfolding pendingOk_def
  proof (intro conjI ballI allI impI)
    show "a \<in> reach (heap ?sd) (root ?sd)" using a_r rd by simp
    show "nodeInv (if b = a then 1 else 0) True {v} ?sd b" if "b \<in> reach (heap ?sd) (root ?sd)" for b
      using that rd nda ndb[of b] by (cases "b = a") simp_all
    show "parent (heap ?sd (root ?sd)) = None" using D(2) by auto
    show "b \<in> reach (heap ?sd) (root ?sd)" if "x \<notin> {v}" "objectToNode ?sd x = Some b" for x b
      using D(3)[of x b] that rd by simp
  qed
  from run have c: "cleanAncestors k (parent (heap ?s2 a)) ?s2 = Ok s'"
    by (simp add: nodeRemove_def Let_def eq)
  from fix_step[OF P] have "case parent (heap ?s2 a) of None \<Rightarrow> octreeOk {v} ?s2 | Some q \<Rightarrow> pendingOk {v} q ?s2"
    by simp
  with c show ?thesis by (rule cleanAncestors_ok)
qed

lemma onlyNonEmpty_sound:
  "onlyNonEmpty h cs acc = Some (Some c) \<Longrightarrow>
     (acc = None \<and> c \<in> set cs \<and> (\<forall>c' \<in> set cs. c' \<noteq> c \<longrightarrow> \<not> count_n (h c') > 0)) \<or>
     (acc = Some c \<and> (\<forall>c' \<in> set cs. \<not> count_n (h c') > 0))"
proof (induction cs arbitrary: acc)
  case Nil
  then show ?case by simp
next
  case (Cons x cs)
  show ?case
  proof (cases "count_n (h x) > 0")
    case False
    with Cons.prems have "onlyNonEmpty h cs acc = Some (Some c)" by simp
    from Cons.IH[OF this] False show ?thesis by auto
  next
    case True
    with Cons.prems have acc: "acc = None" and r: "onlyNonEmpty h cs (Some x) = Some (Some c)"
      by (auto split: option.splits)
    from Cons.IH[OF r] have "x = c" "\<forall>c' \<in> set cs. \<not> count_n (h c') > 0" by auto
    with acc show ?thesis by auto
  qed
qed

lemma shrink_ok: "octreeOk X s \<Longrightarrow> shrink k s = Ok s' \<Longrightarrow> octreeOk X s'"
proof (induction k arbitrary: s)
  case 0
  then show ?case by simp
next
  case (Suc k)
  note D = octreeOkD[OF Suc.prems(1)]
  note N = nodeInvD[OF D(4)]
  let ?r = "root s"
  from Suc.prems(2) show ?case
  proof (cases rule: shrink_Suc_cases)
    case stop
    with Suc.prems(1) show ?thesis by simp
  next
    case reset
    have leaf: "octants (heap s ?r) = None"
    proof (cases "octants (heap s ?r)")
      case (Some os)
      from nodeInv_innerD(3)[OF D(4) Some] reset(3) show ?thesis by simp
    qed simp
    have r: "reach (heap s) ?r = {?r}" using leaf by (rule reach_leaf)
    have leaf': "octants (heap s' (root s')) = None" using leaf by (simp add: reset(4))
    have r': "reach (heap s') (root s') = {?r}"
      using reach_leaf[where h = "heap s'" and a = "root s'", OF leaf'] by (simp add: reset(4))
    have "nodeInv 0 True X s' ?r"
    proof (rule nodeInv_leafI)
      show "octants (heap s' ?r) = None" using leaf by (simp add: reset(4))
      show "(objectToNode s' x = Some ?r) = (x \<in> set (objects (heap s' ?r)))" if "x \<notin> X" for x
        using N(4)[OF that] by (simp add: reset(4))
    qed (use N reset(2,3) in \<open>simp_all add: reset(4)\<close>)
    moreover have "parent (heap s' (root s')) = None" using D(2) by (simp add: reset(4))
    moreover have "b \<in> reach (heap s') (root s')" if "x \<notin> X" "objectToNode s' x = Some b" for x b
      using D(3)[of x b] that r unfolding r' by (simp add: reset(4))
    ultimately show ?thesis
      unfolding octreeOk_def treeOk_def r' by (simp add: reset(4))
  next
    case (promote os c)
    note I = nodeInv_innerD[OF D(4) promote(4)]
    let ?t = "upd c (\<lambda>n. n\<lparr>parent := None\<rparr>) (s\<lparr>root := c\<rparr>)"
    from onlyNonEmpty_sound[OF promote(5)] have c: "c \<in> set os"
      and others: "\<And>c'. c' \<in> set os \<Longrightarrow> c' \<noteq> c \<Longrightarrow> count_n (heap s c') \<le> 0"
      by (auto simp: map_nth_octantIndices[OF I(1)])
    have k: "kidsOk X s ?r os" using D(1) promote(4) by (rule treeOk_kidsOk)
    have okc: "treeOk X s c" using k c by (simp add: kidsOk_def)
    have T: "treeOk X ?t c" "reach (heap ?t) c = reach (heap s) c"
      using okc by (rule treeOk_fields; simp)+
    have tr: "b \<in> reach (heap s) c" if x: "x \<notin> X" and o: "objectToNode s x = Some b" for x b
    proof -
      from D(3)[OF x o] reach_inner[where h = "heap s" and a = ?r, OF promote(4)]
      consider "b = ?r" | c' where "c' \<in> set os" "b \<in> reach (heap s) c'" by auto
      then show ?thesis
      proof cases
        case 1
        with N(4)[OF x] o promote(2) show ?thesis by simp
      next
        case 2
        show ?thesis
        proof (cases "c' = c")
          case True
          with 2 show ?thesis by simp
        next
          case False
          have okc': "treeOk X s c'" using k 2(1) by (simp add: kidsOk_def)
          note nc' = treeOk_node[OF okc']
          have le: "count_n (heap s c') \<le> 0" using others[OF 2(1) False] .
          have leaf: "octants (heap s c') = None"
          proof (cases "octants (heap s c')")
            case (Some os')
            from nodeInv_innerD(3)[OF nc' Some] le show ?thesis by simp
          qed simp
          from reach_leaf[where h = "heap s" and a = c', OF leaf] 2(2) have "b = c'" by simp
          moreover from nodeInv_leafD(1)[OF nc' leaf] le have "objects (heap s c') = []" by simp
          ultimately show ?thesis using nodeInvD(4)[OF nc' x] o by simp
        qed
      qed
    qed
    have "octreeOk X ?t"
      unfolding octreeOk_def using T tr by simp
    from Suc.IH[OF this promote(6)] show ?thesis .
  qed
qed

lemma Octree_remove_ok:
  assumes "octreeOk {} s" and "Octree_remove k v s = Ok s'"
  shows "octreeOk {} s'"
proof (cases "objectToNode s v")
  case None
  with assms show ?thesis by (simp add: Octree_remove_def)
next
  case (Some a)
  with assms(2) obtain s1 where r: "nodeRemove k v a s = Ok s1"
    and sh: "shrink k (s1\<lparr>objectToNode := (objectToNode s1)(v := None)\<rparr>) = Ok s'"
    by (auto simp: Octree_remove_def bnd_Ok_iff)
  from nodeRemove_ok[OF assms(1) Some r] have "octreeOk {v} s1" .
  then have "octreeOk {} (s1\<lparr>objectToNode := (objectToNode s1)(v := None)\<rparr>)" by (rule octreeOk_untrack)
  then show ?thesis using sh by (rule shrink_ok)
qed

section \<open>The invariant: grow, insert and update\<close>

lemma sum_list_map_update_int:
  "i < length xs \<Longrightarrow> sum_list (map f (xs[i := r])) = sum_list (map f xs) - f (xs ! i) + (f r :: int)"
  by (induction xs arbitrary: i) (auto split: nat.splits)

lemma grow_ok:
  assumes ok: "octreeOk X s"
  shows "octreeOk X (grow bb v s)"
proof -
  note D = octreeOkD[OF ok]
  note N = nodeInvD[OF D(4)]
  let ?r = "root s" and ?n = "nextAddr s" and ?g = "grow bb v s"
  let ?d = "growDirection (heap s (root s)) (bb v)"
  let ?N = "newRootNode (heap s (root s)) ?d"
  have lt: "?r < ?n" by (rule D(5))
  have fresh: "objectToNode s x \<noteq> Some b" if "x \<notin> X" "?n \<le> b" for x b
    using D(6) that by (auto simp: otnAlloc_def)
  have small_leaf: "octants (heap s ?r) = None" if "count_n (heap s ?r) \<le> 8"
  proof (cases "octants (heap s ?r)")
    case (Some os)
    from nodeInv_innerD(3)[OF D(4) Some] that show ?thesis by simp
  qed simp
  consider (e) "count_n (heap s ?r) \<le> 0"
    | (m) "0 < count_n (heap s ?r)" "count_n (heap s ?r) \<le> 8"
    | (g) "8 < count_n (heap s ?r)" by linarith
  then show ?thesis
  proof cases
    case e
    have leaf: "octants (heap s ?r) = None" using e by (intro small_leaf) simp
    have empty: "objects (heap s ?r) = []" using nodeInv_leafD(1)[OF D(4) leaf] e by simp
    have G: "?g = s\<lparr>heap := (heap s)(?n := ?N), nextAddr := Suc ?n, root := ?n\<rparr>"
      using e lt by (rule grow_empty)
    have ln: "octants (heap ?g (root ?g)) = None" unfolding G by (simp add: newRootNode_def)
    have r': "reach (heap ?g) (root ?g) = {?n}"
      using reach_leaf[where h = "heap ?g" and a = "root ?g", OF ln] unfolding G by simp
    have "nodeInv 0 True X ?g ?n"
    proof (rule nodeInv_leafI)
      show "(objectToNode ?g x = Some ?n) = (x \<in> set (objects (heap ?g ?n)))" if "x \<notin> X" for x
        using fresh[OF that, of ?n] unfolding G by (simp add: newRootNode_def)
    qed (simp_all add: G newRootNode_def)
    moreover have False if "x \<notin> X" "objectToNode s x = Some b" for x b
    proof -
      from D(3)[OF that] reach_leaf[where h = "heap s" and a = ?r, OF leaf] have "b = ?r" by simp
      with N(4)[OF that(1)] that(2) empty show False by simp
    qed
    then have "b \<in> reach (heap ?g) (root ?g)" if "x \<notin> X" "objectToNode ?g x = Some b" for x b
      using that unfolding G by auto
    moreover have "parent (heap ?g (root ?g)) = None" unfolding G by (simp add: newRootNode_def)
    moreover have "root ?g = ?n" unfolding G by simp
    ultimately show ?thesis
      unfolding octreeOk_def treeOk_def r' by simp
  next
    case m
    have leaf: "octants (heap s ?r) = None" using m(2) by (rule small_leaf)
    note L = nodeInv_leafD[OF D(4) leaf]
    let ?O = "objects (heap s ?r)"
    have G: "?g = s\<lparr>heap := (\<lambda>b. if b = ?n then ?N\<lparr>objects := fold set_add ?O [], count_n := count_n (heap s ?r)\<rparr>
                    else if Suc ?n \<le> b \<and> b < ?n + 9 then octantNode ?n ?N (b - Suc ?n)
                    else if b = ?r then (heap s ?r)\<lparr>parent := Some ?n\<rparr>
                    else heap s b),
        nextAddr := ?n + 9, root := ?n,
        objectToNode := (\<lambda>x. if x \<in> set ?O then Some ?n else objectToNode s x)\<rparr>"
      using grow_merge[OF m lt, of bb v] by (simp add: Let_def)
    have hn: "heap ?g ?n = ?N\<lparr>objects := fold set_add ?O [], count_n := count_n (heap s ?r)\<rparr>"
      unfolding G by simp
    have otn: "objectToNode ?g x = (if x \<in> set ?O then Some ?n else objectToNode s x)" for x
      unfolding G by simp
    have rt: "root ?g = ?n" "nextAddr ?g = ?n + 9" unfolding G by simp_all
    have ln: "octants (heap ?g ?n) = None" by (simp add: hn newRootNode_def)
    have r': "reach (heap ?g) (root ?g) = {?n}"
      using reach_leaf[where h = "heap ?g" and a = ?n, OF ln] by (simp add: rt)
    have len: "length (fold set_add ?O []) = length ?O"
      using length_fold_set_add[of ?O "[]"] N(2) by simp
    have "nodeInv 0 True X ?g ?n"
      using ln
    proof (rule nodeInv_leafI)
      show "?n < nextAddr ?g" by (simp add: rt)
      show "distinct (objects (heap ?g ?n))" by (simp add: hn)
      show "set (objects (heap ?g ?n)) \<inter> X = {}" using N(3) by (simp add: hn)
      show "(objectToNode ?g x = Some ?n) = (x \<in> set (objects (heap ?g ?n)))" if "x \<notin> X" for x
        using fresh[OF that, of ?n] by (simp add: hn otn)
      show "count_n (heap ?g ?n) - 0 = int (length (objects (heap ?g ?n)))"
        using L(1) by (simp add: hn len)
      show "length (objects (heap ?g ?n)) \<le> 8"
        using L(1) m(2) by (simp add: hn len)
    qed
    moreover have "b = ?n" if "x \<notin> X" "objectToNode ?g x = Some b" for x b
    proof (cases "x \<in> set ?O")
      case True
      with that(2) show ?thesis by (simp add: otn)
    next
      case False
      with that(2) have o: "objectToNode s x = Some b" by (simp add: otn)
      from D(3)[OF that(1) o] reach_leaf[where h = "heap s" and a = ?r, OF leaf] have "b = ?r" by simp
      with N(4)[OF that(1)] o False show ?thesis by simp
    qed
    moreover have "parent (heap ?g (root ?g)) = None" by (simp add: rt hn newRootNode_def)
    ultimately show ?thesis
      unfolding octreeOk_def treeOk_def r' using rt by auto
  next
    case g
    let ?i = "octantIndex ?d"
    let ?os = "grownOctants ?n ?i ?r"
    have G: "?g = s\<lparr>heap := (\<lambda>b. if b = ?n then ?N\<lparr>octants := Some ?os, count_n := count_n (heap s ?r)\<rparr>
                    else if Suc ?n \<le> b \<and> b < ?n + 9 then octantNode ?n ?N (b - Suc ?n)
                    else if b = ?r then (heap s ?r)\<lparr>parent := Some ?n\<rparr>
                    else heap s b),
        nextAddr := ?n + 9, root := ?n\<rparr>"
      using grow_split[OF g lt, of bb v] by (simp add: Let_def)
    have hn: "heap ?g ?n = ?N\<lparr>octants := Some ?os, count_n := count_n (heap s ?r)\<rparr>"
      unfolding G by simp
    have hc: "heap ?g (Suc ?n + j) = octantNode ?n ?N j" if "j < 8" for j
      unfolding G using that by simp
    have hr: "heap ?g ?r = (heap s ?r)\<lparr>parent := Some ?n\<rparr>"
      unfolding G using lt by simp
    have ho: "heap ?g b = heap s b" if "b < ?n" "b \<noteq> ?r" for b
      unfolding G using that by simp
    have otn: "objectToNode ?g = objectToNode s" unfolding G by simp
    have rt: "root ?g = ?n" "nextAddr ?g = ?n + 9" unfolding G by simp_all
    have i8: "?i < 8" by (rule octantIndex_less)
    have old: "octants (heap ?g b) = octants (heap s b) \<and> objects (heap ?g b) = objects (heap s b) \<and>
               count_n (heap ?g b) = count_n (heap s b) \<and> depth (heap ?g b) = depth (heap s b)"
      if "b < ?n" for b
      using that ho[of b] hr by (cases "b = ?r") simp_all
    have T: "treeOk X ?g ?r" "reach (heap ?g) ?r = reach (heap s) ?r"
    proof -
      have f: "octants (heap ?g b) = octants (heap s b) \<and> objects (heap ?g b) = objects (heap s b) \<and>
               count_n (heap ?g b) = count_n (heap s b) \<and> depth (heap ?g b) = depth (heap s b)"
        if "b \<in> reach (heap s) ?r" for b
        using treeOk_allocated[OF D(1) that] by (rule old)
      have p: "parent (heap ?g b) = parent (heap s b)" if "b \<in> reach (heap s) ?r" "b \<noteq> ?r" for b
        using treeOk_allocated[OF D(1) that(1)] that(2) by (simp add: ho)
      show "treeOk X ?g ?r" "reach (heap ?g) ?r = reach (heap s) ?r"
        using D(1) f p by (rule treeOk_fields; simp add: rt otn)+
    qed
    have mem: "c = ?r \<or> (\<exists>j<8. c = Suc ?n + j)" if "c \<in> set ?os" for c
      using that set_update_subset_insert[of "octantAddrs (Suc ?n)" ?i ?r]
      by (auto simp: grownOctants_def set_octantAddrs)
    have r_mem: "?r \<in> set ?os"
      unfolding grownOctants_def using i8 by (intro set_update_memI) simp
    have dist: "distinct ?os"
      unfolding grownOctants_def using lt
      by (intro distinct_list_update) (auto simp: set_octantAddrs)
    have cell: "treeOk X ?g (Suc ?n + j)" if j: "j < 8" for j
    proof -
      have l: "octants (heap ?g (Suc ?n + j)) = None" using hc[OF j] by (simp add: octantNode_def)
      have "nodeInv 0 True X ?g (Suc ?n + j)"
        using l
      proof (rule nodeInv_leafI)
        show "(objectToNode ?g x = Some (Suc ?n + j)) = (x \<in> set (objects (heap ?g (Suc ?n + j))))"
          if "x \<notin> X" for x
          using fresh[OF that, of "Suc ?n + j"] hc[OF j] by (simp add: otn octantNode_def)
      qed (use j hc[OF j] in \<open>simp_all add: rt octantNode_def\<close>)
      then show ?thesis unfolding treeOk_leaf_iff[where t = ?g, OF l] .
    qed
    have sm: "sum_list (map (\<lambda>c. count_n (heap ?g c)) ?os) = count_n (heap s ?r)"
    proof -
      have hc': "count_n (heap ?g (Suc (?n + j))) = 0" if "j < 8" for j
        using hc[OF that] by (simp add: octantNode_def)
      have z: "sum_list (map (\<lambda>c. count_n (heap ?g c)) (octantAddrs (Suc ?n))) = sum_list (map (\<lambda>c. 0) (octantAddrs (Suc ?n)))"
        by (intro arg_cong[where f = sum_list] map_cong refl) (auto simp: set_octantAddrs hc')
      have "sum_list (map (\<lambda>c. count_n (heap ?g c)) ?os) =
            sum_list (map (\<lambda>c. count_n (heap ?g c)) (octantAddrs (Suc ?n)))
            - count_n (heap ?g (octantAddrs (Suc ?n) ! ?i)) + count_n (heap ?g ?r)"
        unfolding grownOctants_def using i8 by (intro sum_list_map_update_int) simp
      then show ?thesis using i8 hc'[OF i8] by (simp add: z hr)
    qed
    have on: "octants (heap ?g ?n) = Some ?os" by (simp add: hn)
    have nn: "nodeInv 0 True X ?g ?n"
      using on
    proof (rule nodeInv_innerI)
      show "?n < nextAddr ?g" by (simp add: rt)
      show "distinct (objects (heap ?g ?n))" "set (objects (heap ?g ?n)) \<inter> X = {}"
        by (simp_all add: hn newRootNode_def)
      show "(objectToNode ?g x = Some ?n) = (x \<in> set (objects (heap ?g ?n)))" if "x \<notin> X" for x
        using fresh[OF that, of ?n] by (simp add: hn otn newRootNode_def)
      show "length ?os = 8" by (simp add: grownOctants_def)
      show "distinct ?os" by (rule dist)
      show "8 < count_n (heap ?g ?n)" using g by (simp add: hn)
      show "count_n (heap ?g ?n) - 0 = int (length (objects (heap ?g ?n))) +
          sum_list (map (\<lambda>c. count_n (heap ?g c)) ?os)"
        unfolding sm by (simp add: hn newRootNode_def)
      show "parent (heap ?g c) = Some ?n \<and> depth (heap ?g c) = depth (heap ?g ?n) + 1"
        if "c \<in> set ?os" for c
        using mem[OF that] hc hr by (auto simp: hn newRootNode_def octantNode_def)
    qed
    have kids: "treeOk X ?g c" if "c \<in> set ?os" for c
      using mem[OF that] T(1) cell by auto
    have "treeOk X ?g ?n"
      unfolding treeOk_inner_iff[where t = ?g, OF on] using nn kids by simp
    moreover have "parent (heap ?g ?n) = None" by (simp add: hn newRootNode_def)
    moreover have "b \<in> reach (heap ?g) ?n" if "x \<notin> X" "objectToNode ?g x = Some b" for x b
    proof -
      from that have "b \<in> reach (heap s) ?r" using D(3)[of x b] by (simp add: otn)
      then have "b \<in> reach (heap ?g) ?r" by (simp add: T(2))
      with on r_mem show ?thesis by (rule reach_child)
    qed
    ultimately show ?thesis
      unfolding octreeOk_def by (simp add: rt)
  qed
qed

lemma growLoop_ok:
  "octreeOk X s \<Longrightarrow> growLoop k bb v s = Ok (w, s') \<Longrightarrow> v \<notin> X \<Longrightarrow> objectToNode s v = None \<Longrightarrow>
   octreeOk X s' \<and> objectToNode s' v = None"
proof (induction k arbitrary: s)
  case 0
  then show ?case by simp
next
  case (Suc k)
  show ?case
  proof (cases "fits bb v s \<or> depth (heap s (root s)) = MIN_DEPTH")
    case True
    with Suc.prems have "s' = s" by (auto simp: fits_def split: if_splits)
    with Suc.prems show ?thesis by simp
  next
    case False
    with Suc.prems(2) have g: "growLoop k bb v (grow bb v s) = Ok (w, s')"
      by (auto simp: fits_def)
    note D = octreeOkD[OF Suc.prems(1)]
    have "v \<notin> set (objects (heap s (root s)))"
      using nodeInvD(4)[OF D(4) Suc.prems(3)] Suc.prems(4) by simp
    then have "objectToNode (grow bb v s) v = None"
      using grow_facts(4)[OF D(5), of bb v v] Suc.prems(4) by simp
    with Suc.IH[OF grow_ok[OF Suc.prems(1)] g Suc.prems(3)] show ?thesis by simp
  qed
qed

lemma insert_root_ok:
  assumes ok: "octreeOk X s" and vX: "v \<notin> X" and un: "objectToNode s v = None"
    and run: "nodeInsert k bb v (root s) s = Ok s'"
  shows "octreeOk X s'"
proof -
  note D = octreeOkD[OF ok]
  have sp: "insertSpec k bb X" using insert_split_spec by simp
  have vT: "objectToNode s v \<noteq> Some b" for b using un by simp
  from sp[unfolded insertSpec_def, rule_format, OF run D(1) D(6) vX vT]
  have st: "subtreeStep X {v} 1 (root s) s s'" by simp
  note S = subtreeStepD[OF st]
  have "b \<in> reach (heap s') (root s)" if "x \<notin> X" "objectToNode s' x = Some b" for x b
    using S(10)[OF that] D(3)[OF that(1)] by auto
  then show ?thesis
    using S(1,2,4) D(2) by (simp add: octreeOk_def)
qed

lemma Octree_insert_ok:
  assumes ok: "octreeOk {} s" and run: "Octree_insert k bb v s = Ok (w, s')"
  shows "octreeOk {} s'"
proof (cases "objectToNode s v")
  case (Some a)
  with run ok show ?thesis by (simp add: Octree_insert_def)
next
  case None
  show ?thesis
  proof (cases w)
    case True
    with run have g: "growLoop k bb v s = Ok (True, s')" by (simp add: Octree_insert_warned)
    from growLoop_ok[OF ok g _ None] show ?thesis by simp
  next
    case False
    with run None obtain s1 s2 where g: "growLoop k bb v s = Ok (False, s1)"
      and i: "nodeInsert k bb v (root s1) s1 = Ok s2"
      and sh: "s' = s2 \<or> shrink k s2 = Ok s'"
      by (auto simp: Octree_insert_def bnd_Ok_iff Let_def split: if_splits)
    from growLoop_ok[OF ok g _ None] have ok1: "octreeOk {} s1" and un1: "objectToNode s1 v = None"
      by simp_all
    have ok2: "octreeOk {} s2" using ok1 _ un1 i by (rule insert_root_ok) simp
    from sh show ?thesis
    proof
      assume "s' = s2"
      with ok2 show ?thesis by simp
    next
      assume "shrink k s2 = Ok s'"
      with ok2 show ?thesis by (rule shrink_ok)
    qed
  qed
qed

lemma Octree_update_ok:
  assumes "octreeOk {} s" and "Octree_update k bb v s = Ok (w, s')"
  shows "octreeOk {} s'"
proof -
  from assms(2) obtain s1 where r: "Octree_remove k v s = Ok s1" and i: "Octree_insert k bb v s1 = Ok (w, s')"
    by (auto simp: Octree_update_def bnd_Ok_iff)
  from Octree_remove_ok[OF assms(1) r] i show ?thesis by (rule Octree_insert_ok)
qed

lemma Octree_new_ok: "octreeOk {} Octree_new"
proof -
  have l: "octants (heap Octree_new (root Octree_new)) = None"
    by (simp add: Octree_new_def blankNode_def)
  have "nodeInv 0 True {} Octree_new (root Octree_new)"
    using l by (rule nodeInv_leafI) (simp_all add: Octree_new_def blankNode_def)
  then show ?thesis
    unfolding octreeOk_def treeOk_leaf_iff[where t = Octree_new, OF l]
    by (simp add: Octree_new_def blankNode_def)
qed

lemma reachable_ok: "reachable s \<Longrightarrow> octreeOk {} s"
proof (induction rule: reachable.induct)
  case reachable_new
  show ?case by (rule Octree_new_ok)
next
  case (reachable_insert s k bb v w s')
  then show ?case by (blast intro: Octree_insert_ok)
next
  case (reachable_remove s k v s')
  then show ?case by (blast intro: Octree_remove_ok)
next
  case (reachable_update s k bb v w s')
  then show ?case by (blast intro: Octree_update_ok)
qed

section \<open>Count consistency, the threshold of 8 and single ownership\<close>

lemma reachable_treeOf: "reachable s \<Longrightarrow> reachable (treeOf (Octree_insert k bb v s))"
proof (cases "Octree_insert k bb v s")
  case (Ok r)
  assume "reachable s"
  then have "reachable (snd r)" using Ok by (cases r) (auto intro: reachable_insert)
  with Ok show ?thesis by (auto simp: treeOf_def split: prod.splits)
qed (simp_all add: treeOf_def reachable_new)

lemma insert_into_leaf:
  assumes un: "objectToNode s v = None" and leaf: "octants (heap s (root s)) = None"
    and len: "length (objects (heap s (root s))) < 8" and f: "fits bb v s"
  shows "Octree_insert (Suc (Suc k)) bb v s =
           Ok (False, addObject v (root s) (upd (root s) (\<lambda>n. n\<lparr>count_n := count_n n + 1\<rparr>) s))"
proof -
  let ?t = "addObject v (root s) (upd (root s) (\<lambda>n. n\<lparr>count_n := count_n n + 1\<rparr>) s)"
  have g: "growLoop (Suc (Suc k)) bb v s = Ok (False, s)"
    using f by (simp add: fits_def)
  have l: "length (objects (heap ?t (root s))) \<le> 8" "0 < length (objects (heap ?t (root s)))"
    using len by (auto simp: set_add_def)
  have i: "nodeInsert (Suc (Suc k)) bb v (root s) s = Ok ?t"
    using leaf l(1) by (simp add: nodeInsert_Suc Let_def split_Suc)
  have sh: "shrink (Suc (Suc k)) ?t = Ok ?t"
    using l(2) by (simp add: Let_def)
  show ?thesis
    using un by (simp add: Octree_insert_def g i sh bnd_def Let_def del: growLoop.simps shrink.simps)
qed

lemma inserts_into_leaf:
  assumes "octants (heap s (root s)) = None" and "distinct vs"
    and "\<forall>v \<in> set vs. objectToNode s v = None"
    and "length (objects (heap s (root s))) + length vs \<le> 8"
    and "\<forall>v \<in> set vs. fits bb v s"
  shows "fold (\<lambda>v s. treeOf (Octree_insert (Suc (Suc k)) bb v s)) vs s = fold addAtRoot vs s"
  using assms
proof (induction vs arbitrary: s)
  case Nil
  then show ?case by simp
next
  case (Cons v vs)
  have 1: "Octree_insert (Suc (Suc k)) bb v s = Ok (False, addAtRoot v s)"
    unfolding addAtRoot_def using Cons.prems by (intro insert_into_leaf) simp_all
  have "fold (\<lambda>v s. treeOf (Octree_insert (Suc (Suc k)) bb v s)) vs (addAtRoot v s) = fold addAtRoot vs (addAtRoot v s)"
  proof (rule Cons.IH)
    show "octants (heap (addAtRoot v s) (root (addAtRoot v s))) = None"
      using Cons.prems(1) by (simp add: addAtRoot_def)
    show "distinct vs" using Cons.prems(2) by simp
    show "\<forall>w \<in> set vs. objectToNode (addAtRoot v s) w = None"
      using Cons.prems(2,3) by (auto simp: addAtRoot_def)
    show "length (objects (heap (addAtRoot v s) (root (addAtRoot v s)))) + length vs \<le> 8"
      using Cons.prems(4) by (simp add: addAtRoot_def set_add_def)
    show "\<forall>w \<in> set vs. fits bb w (addAtRoot v s)"
      using Cons.prems(5) by (simp add: addAtRoot_def fits_def largerThan_def containsCenter_def containsPoint_def)
  qed
  then show ?case by (simp add: 1 treeOf_def)
qed

lemma fold_addAtRoot:
  "root (fold addAtRoot vs s) = root s"
  "nextAddr (fold addAtRoot vs s) = nextAddr s"
  "heap (fold addAtRoot vs s) (root s) =
     (heap s (root s))\<lparr>count_n := count_n (heap s (root s)) + int (length vs),
                         objects := fold set_add vs (objects (heap s (root s)))\<rparr>"
  "objectToNode (fold addAtRoot vs s) = (\<lambda>x. if x \<in> set vs then Some (root s) else objectToNode s x)"
proof -
  have "root (fold addAtRoot vs s) = root s \<and> nextAddr (fold addAtRoot vs s) = nextAddr s \<and>
    heap (fold addAtRoot vs s) (root s) =
     (heap s (root s))\<lparr>count_n := count_n (heap s (root s)) + int (length vs),
                         objects := fold set_add vs (objects (heap s (root s)))\<rparr> \<and>
    objectToNode (fold addAtRoot vs s) = (\<lambda>x. if x \<in> set vs then Some (root s) else objectToNode s x)"
  proof (induction vs arbitrary: s)
    case Nil
    then show ?case by simp
  next
    case (Cons v vs)
    have a: "root (addAtRoot v s) = root s" "nextAddr (addAtRoot v s) = nextAddr s"
      "heap (addAtRoot v s) (root s) = (heap s (root s))\<lparr>count_n := count_n (heap s (root s)) + 1,
          objects := set_add v (objects (heap s (root s)))\<rparr>"
      "objectToNode (addAtRoot v s) = (objectToNode s)(v \<mapsto> root s)"
      by (simp_all add: addAtRoot_def)
    from Cons.IH[of "addAtRoot v s"] show ?case
      unfolding fold.simps o_apply a by (auto simp: fun_eq_iff)
  qed
  then show "root (fold addAtRoot vs s) = root s"
    "nextAddr (fold addAtRoot vs s) = nextAddr s"
    "heap (fold addAtRoot vs s) (root s) =
     (heap s (root s))\<lparr>count_n := count_n (heap s (root s)) + int (length vs),
                         objects := fold set_add vs (objects (heap s (root s)))\<rparr>"
    "objectToNode (fold addAtRoot vs s) = (\<lambda>x. if x \<in> set vs then Some (root s) else objectToNode s x)"
    by simp_all
qed

lemma eightObjects_eq: "eightObjects = fold addAtRoot [2, 3, 4, 5, 6, 7, 8, 9] Octree_new"
  unfolding eightObjects_def numeral_2_eq_2
  by (rule inserts_into_leaf)
    (simp_all add: Octree_new_def blankNode_def fits_def largerThan_def containsCenter_def
      containsPoint_def center_def bigBox_def DEFAULT_ROOT_NODE_SIZE_def)

lemma eightObjects_facts:
  "heap eightObjects 0 = \<lparr>parent = None, min_n = Vec3 0 0 0, size_n = 1, octants = None,
      objects = [2, 3, 4, 5, 6, 7, 8, 9], count_n = 8, depth = 0\<rparr>"
  "root eightObjects = 0" "nextAddr eightObjects = Suc 0" "objectToNode eightObjects 10 = None"
proof -
  note F = fold_addAtRoot[of "[2, 3, 4, 5, 6, 7, 8, 9]" Octree_new, folded eightObjects_eq]
  have r: "root Octree_new = 0" by (simp add: Octree_new_def)
  show "heap eightObjects 0 = \<lparr>parent = None, min_n = Vec3 0 0 0, size_n = 1, octants = None,
      objects = [2, 3, 4, 5, 6, 7, 8, 9], count_n = 8, depth = 0\<rparr>"
    using F(3) unfolding r by (simp add: Octree_new_def blankNode_def DEFAULT_ROOT_NODE_SIZE_def set_add_def)
  show "root eightObjects = 0" using F(1) by (simp add: r)
  show "nextAddr eightObjects = Suc 0" using F(2) by (simp add: Octree_new_def)
  show "objectToNode eightObjects 10 = None" using F(4) by (simp add: Octree_new_def)
qed

lemma split_too_big:
  assumes big: "8 < length (objects (heap t a))" and d: "depth (heap t a) \<noteq> MAX_DEPTH"
    and lt: "a < nextAddr t"
    and nl: "\<And>v. \<not> largerThan bb (octantNode a (heap t a) 0) v"
  shows "split (Suc (Suc k)) bb a t = Ok (createOctants a t)"
proof -
  let ?c = "createOctants a t"
  note H = createOctants_simps(4)[OF lt]
  have o: "octants (heap ?c a) = Some (octantAddrs (nextAddr t))" by (simp add: H)
  have cell: "heap ?c (nextAddr t + i) = octantNode a (heap t a) i" if "i < 8" for i
    using that lt by (simp add: H)
  have "distribute (Suc k) bb a v ?c = Ok ?c" for v
    using nl[of v] cell[of 0] by (simp add: distribute_def o)
  then have 1: "foldR (distribute (Suc k) bb a) (objects (heap ?c a)) ?c = Ok ?c"
    by (intro foldR_id) simp
  have "splitOctant (Suc k) bb a i ?c = Ok ?c" if "i \<in> set octantIndices" for i
  proof -
    from that have i: "i < 8" by simp
    show ?thesis using cell[OF i] i by (simp add: splitOctant_def o split_Suc octantNode_def)
  qed
  then have 2: "foldR (splitOctant (Suc k) bb a) octantIndices ?c = Ok ?c"
    by (intro foldR_id) simp
  show ?thesis using big d by (simp add: split_Suc 1 2 bnd_def)
qed

lemma nineObjects_eq:
  "nineObjects = createOctants 0 (addObject 10 0 (upd 0 (\<lambda>n. n\<lparr>count_n := count_n n + 1\<rparr>) eightObjects))"
proof -
  note E = eightObjects_facts
  let ?t = "addObject 10 0 (upd 0 (\<lambda>n. n\<lparr>count_n := count_n n + 1\<rparr>) eightObjects)"
  have g: "growLoop (Suc (Suc (Suc 0))) bigBox 10 eightObjects = Ok (False, eightObjects)"
    by (simp add: E largerThan_def containsCenter_def containsPoint_def center_def bigBox_def)
  have i: "nodeInsert (Suc (Suc (Suc 0))) bigBox 10 0 eightObjects = split (Suc (Suc 0)) bigBox 0 ?t"
    by (simp add: nodeInsert_Suc E Let_def)
  have s: "split (Suc (Suc 0)) bigBox 0 ?t = Ok (createOctants 0 ?t)"
    by (rule split_too_big)
      (simp_all add: E set_add_def MAX_DEPTH_def largerThan_def octantNode_def bigBox_def)
  show ?thesis
    unfolding nineObjects_def
    by (simp add: Octree_insert_def E numeral_3_eq_3 g i s bnd_def treeOf_def Let_def del: growLoop.simps)
qed

lemma nineObjects_facts:
  "root nineObjects = 0"
  "octants (heap nineObjects 0) = Some (octantAddrs (Suc 0))"
  "objects (heap nineObjects 0) = [2, 3, 4, 5, 6, 7, 8, 9, 10]"
  "i < 8 \<Longrightarrow> count_n (heap nineObjects (Suc i)) = 0"
  "objectToNode nineObjects 10 = Some 0"
proof -
  note E = eightObjects_facts
  let ?t = "addObject 10 0 (upd 0 (\<lambda>n. n\<lparr>count_n := count_n n + 1\<rparr>) eightObjects)"
  have lt: "0 < nextAddr ?t" by (simp add: E)
  note H = createOctants_simps[OF lt]
  show "root nineObjects = 0" unfolding nineObjects_eq by (simp add: E)
  show "octants (heap nineObjects 0) = Some (octantAddrs (Suc 0))"
    unfolding nineObjects_eq by (simp add: H(4) E)
  show "objects (heap nineObjects 0) = [2, 3, 4, 5, 6, 7, 8, 9, 10]"
    unfolding nineObjects_eq by (simp add: H(4) E set_add_def)
  show "count_n (heap nineObjects (Suc i)) = 0" if "i < 8"
    unfolding nineObjects_eq using that by (simp add: H(4) E octantNode_def)
  show "objectToNode nineObjects 10 = Some 0"
    unfolding nineObjects_eq by simp
qed

lemma reachable_nineObjects: "reachable nineObjects"
  unfolding nineObjects_def eightObjects_def by (simp add: reachable_treeOf reachable_new)

text \<open>
  C1.  In every octree that the public operations produce (any sequence of calls of
  \<^verbatim>\<open>insert\<close>, \<^verbatim>\<open>remove\<close> and \<^verbatim>\<open>update\<close> on a new octree, with the grow, shrink, split and
  merge steps they trigger), for every node of the tree the \<open>count\<close> field equals the
  size of its direct objects set plus the sum of the \<open>count\<close> fields of its octants
  (nothing is added for a node without octants).
\<close>

theorem count_consistent:
  assumes "reachable s" and "b \<in> reach (heap s) (root s)"
  shows "count_n (heap s b) = int (length (objects (heap s b))) +
           (case octants (heap s b) of None \<Rightarrow> 0 | Some os \<Rightarrow> sum_list (map (\<lambda>c. count_n (heap s c)) os))"
proof -
  from reachable_ok[OF assms(1)] assms(2) have n: "nodeInv 0 True {} s b"
    by (simp add: octreeOk_def treeOk_def)
  show ?thesis
  proof (cases "octants (heap s b)")
    case None
    with nodeInv_leafD(1)[OF n None] show ?thesis by simp
  next
    case (Some os)
    with nodeInv_innerD(4)[OF n Some] show ?thesis by simp
  qed
qed

theorem count_consistent_witness:
  "reachable nineObjects \<and> root nineObjects \<in> reach (heap nineObjects) (root nineObjects) \<and>
   octants (heap nineObjects (root nineObjects)) = Some (octantAddrs 1) \<and>
   length (objects (heap nineObjects (root nineObjects))) = 9 \<and>
   sum_list (map (\<lambda>c. count_n (heap nineObjects c)) (octantAddrs 1)) = 0 \<and>
   count_n (heap nineObjects (root nineObjects)) = 9"
proof -
  note F = nineObjects_facts
  have o: "octants (heap nineObjects (root nineObjects)) = Some (octantAddrs 1)"
    and l: "length (objects (heap nineObjects (root nineObjects))) = 9"
    by (simp_all add: F)
  have "sum_list (map (\<lambda>c. count_n (heap nineObjects c)) (octantAddrs 1)) =
        sum_list (map (\<lambda>c. 0) (octantAddrs 1))"
    by (intro arg_cong[where f = sum_list] map_cong refl) (auto simp: set_octantAddrs F(4))
  then have z: "sum_list (map (\<lambda>c. count_n (heap nineObjects c)) (octantAddrs 1)) = 0" by simp
  from count_consistent[OF reachable_nineObjects reach_self] o l z
  have "count_n (heap nineObjects (root nineObjects)) = 9" by simp
  with reachable_nineObjects o l z show ?thesis by (simp add: reach_self)
qed

text \<open>
  C4.  In every octree that the public operations produce, every node of the tree that
  has octants has \<open>count\<close> strictly greater than 8, and every node whose \<open>count\<close> is at
  most 8 has no octants.
\<close>

theorem children_iff_more_than_eight:
  assumes "reachable s" and "b \<in> reach (heap s) (root s)"
  shows "(octants (heap s b) \<noteq> None \<longrightarrow> 8 < count_n (heap s b)) \<and>
         (count_n (heap s b) \<le> 8 \<longrightarrow> octants (heap s b) = None)"
proof -
  from reachable_ok[OF assms(1)] assms(2) have n: "nodeInv 0 True {} s b"
    by (simp add: octreeOk_def treeOk_def)
  have "8 < count_n (heap s b)" if "octants (heap s b) = Some os" for os
    using nodeInv_innerD(3)[OF n that] .
  then show ?thesis by (cases "octants (heap s b)") auto
qed

theorem children_iff_more_than_eight_witness:
  "reachable nineObjects \<and> root nineObjects \<in> reach (heap nineObjects) (root nineObjects) \<and>
   octants (heap nineObjects (root nineObjects)) = Some (octantAddrs 1) \<and>
   8 < count_n (heap nineObjects (root nineObjects))"
proof -
  have o: "octants (heap nineObjects (root nineObjects)) = Some (octantAddrs 1)"
    by (simp add: nineObjects_facts)
  from children_iff_more_than_eight[OF reachable_nineObjects reach_self] o
  have "8 < count_n (heap nineObjects (root nineObjects))" by simp
  with reachable_nineObjects o show ?thesis by (simp add: reach_self)
qed

text \<open>
  C5.  In every octree that the public operations produce, an object that
  \<open>objectToNode\<close> maps to a node \<open>a\<close> is tracked to a node of the tree, the direct objects
  set of \<open>a\<close> contains it (once), and no other node of the tree has it in its set.
\<close>

theorem single_ownership:
  assumes "reachable s" and "objectToNode s v = Some a"
  shows "a \<in> reach (heap s) (root s) \<and> v \<in> set (objects (heap s a)) \<and>
         distinct (objects (heap s a)) \<and>
         (\<forall>b \<in> reach (heap s) (root s). v \<in> set (objects (heap s b)) \<longrightarrow> b = a)"
proof -
  note ok = reachable_ok[OF assms(1)]
  note D = octreeOkD[OF ok]
  have a: "a \<in> reach (heap s) (root s)" using D(3)[OF _ assms(2)] by simp
  have n: "nodeInv 0 True {} s b" if "b \<in> reach (heap s) (root s)" for b
    using D(1) that by (simp add: treeOk_def)
  have "v \<in> set (objects (heap s a))" using nodeInvD(4)[OF n[OF a], of v] assms(2) by simp
  moreover have "distinct (objects (heap s a))" using nodeInvD(2)[OF n[OF a]] .
  moreover have "b = a" if "b \<in> reach (heap s) (root s)" "v \<in> set (objects (heap s b))" for b
    using nodeInvD(4)[OF n[OF that(1)], of v] that(2) assms(2) by simp
  ultimately show ?thesis using a by blast
qed

theorem single_ownership_witness:
  "reachable nineObjects \<and> objectToNode nineObjects 10 = Some 0 \<and>
   0 \<in> reach (heap nineObjects) (root nineObjects) \<and> 10 \<in> set (objects (heap nineObjects 0))"
proof -
  from single_ownership[OF reachable_nineObjects nineObjects_facts(5)]
  have "0 \<in> reach (heap nineObjects) (root nineObjects) \<and> 10 \<in> set (objects (heap nineObjects 0))"
    by blast
  with reachable_nineObjects nineObjects_facts(5) show ?thesis by blast
qed

end
